theory Spec2Isabelle
  imports Complex_Main "HOL-Library.Monad_Syntax"
begin

section \<open>Literals, truth values and clauses\<close>

text \<open>
  The solver core is \<^verbatim>\<open>minisat/core/Solver.cc\<close>.  Its header files (SolverTypes.h,
  Solver.h, Vec.h, Heap.h, Sort.h, Alg.h) are not part of the reviewed sources; the few
  helpers of those headers that Solver.cc calls are modelled below, each marked as such.
  Variables are dense indices, clause references are indices into the clause arena,
  \<^verbatim>\<open>CRef_Undef\<close>, \<^verbatim>\<open>var_Undef\<close> and \<^verbatim>\<open>lit_Undef\<close> are \<open>None\<close>, and the
  \<^verbatim>\<open>double\<close> values that only drive heuristics are idealised as reals.
\<close>

type_synonym var = nat
type_synonym cref = nat

datatype lbool = l_True | l_False | l_Undef

text \<open>Modelled from the spec: the literal type of SolverTypes.h, a variable index with a
  polarity bit, ordered by \<open>2*variable + polarity_bit\<close>; the complement flips the bit.\<close>

datatype lit = mkLit (var: var) (sign: bool)

definition toInt :: "lit \<Rightarrow> nat" where
  "toInt p = 2 * var p + (if sign p then 1 else 0)"

definition neg :: "lit \<Rightarrow> lit" where
  "neg p = mkLit (var p) (\<not> sign p)"

text \<open>Modelled from the spec: \<^verbatim>\<open>lbool(bool)\<close> and \<^verbatim>\<open>lbool ^ bool\<close> of SolverTypes.h
  (a literal with the polarity bit set is true when its variable is false).\<close>

definition lbool_of :: "bool \<Rightarrow> lbool" where
  "lbool_of b = (if b then l_True else l_False)"

definition lxor :: "lbool \<Rightarrow> bool \<Rightarrow> lbool" where
  "lxor v b = (case v of l_Undef \<Rightarrow> l_Undef
                | l_True \<Rightarrow> (if b then l_False else l_True)
                | l_False \<Rightarrow> (if b then l_True else l_False))"

text \<open>Modelled from the spec: a clause of the arena (SolverTypes.h): its literals, the
  learned flag, the activity, the removal mark, and the forwarding handle set when the
  clause has been relocated by the garbage collector.\<close>

record clause =
  lits :: "lit list"
  learnt :: bool
  cl_activity :: real
  mark :: nat
  relocation :: "cref option"

datatype watcher = Watcher (cref: cref) (blocker: lit)

record vardata =
  reason :: "cref option"
  level :: nat

section \<open>The solver state\<close>

text \<open>The user-settable parameters of the constructor, and the option
  \<^verbatim>\<open>opt_default_upol\<close> read by \<^verbatim>\<open>newVar\<close>.\<close>

record opts =
  verbosity :: int
  var_decay :: real
  clause_decay :: real
  random_var_freq :: real
  luby_restart :: bool
  ccmin_mode :: nat
  phase_saving :: nat
  rnd_pol :: bool
  rnd_init_act :: bool
  default_upol :: bool
  garbage_frac :: real
  min_learnts_lim :: int
  restart_first :: int
  restart_inc :: real
  learntsize_factor :: real
  learntsize_inc :: real
  learntsize_adjust_start_confl :: int
  learntsize_adjust_inc :: real
  conflict_budget :: int
  propagation_budget :: int
  asynch_interrupt :: bool

text \<open>The statistics counters (``formerly in SolverStats'').\<close>

record stats =
  solves :: nat
  starts :: nat
  decisions :: nat
  rnd_decisions :: nat
  propagations :: nat
  conflicts :: nat
  dec_vars :: int
  num_clauses :: int
  num_learnts :: int
  clauses_literals :: int
  learnts_literals :: int
  max_literals :: nat
  tot_literals :: nat

text \<open>The members of \<^verbatim>\<open>Solver\<close>.  The occurrence lists are \<open>watches\<close>, indexed by
  the integer code of the literal, together with \<open>dirties\<close>, the literals whose list was
  smudged by a lazy detach and not cleaned yet.
  \<open>order_heap\<close> holds the variables of the decision heap.\<close>

record solver =
  opt :: opts
  stat :: stats
  ok :: bool
  ca :: "clause list"
  clauses :: "cref list"
  learnts :: "cref list"
  watches :: "watcher list list"
  dirties :: "lit list"
  assigns :: "lbool list"
  vardata :: "vardata list"
  activity :: "real list"
  seen :: "nat list"
  first_polarity :: "bool list"
  polarity :: "bool list"
  user_pol :: "lbool list"
  decision :: "bool list"
  trail :: "lit list"
  trail_lim :: "nat list"
  qhead :: nat
  order_heap :: "var list"
  cla_inc :: real
  var_inc :: real
  var_inc1 :: real
  random_seed :: real
  simpDB_assigns :: int
  simpDB_props :: int
  progress_estimate :: real
  next_var :: nat
  free_vars :: "var list"
  released_vars :: "var list"
  model :: "lbool list"
  conflict :: "lit list"
  assumptions :: "lit list"
  max_learnts :: real
  learntsize_adjust_confl :: real
  learntsize_adjust_cnt :: int
  addClause_SingleLitReturned :: bool
  addClause_SingleLit :: "lit option"

text \<open>The parts of the absent headers that cannot be written down from the spec are
  parameters of the model: the pseudo-random generator \<^verbatim>\<open>drand\<close> (from the seed to a
  draw in \<open>[0,1)\<close> and the next seed) and the test of \<^verbatim>\<open>checkGarbage\<close> on the arena
  (wasted space against \<open>garbage_frac\<close>), which depends on the memory layout.\<close>

record env =
  drand :: "real \<Rightarrow> real \<times> real"
  need_gc :: "real \<Rightarrow> clause list \<Rightarrow> bool"

text \<open>A loop over a list that threads the state through its body.\<close>

primrec for_each :: "('a \<Rightarrow> 's \<Rightarrow> 's) \<Rightarrow> 'a list \<Rightarrow> 's \<Rightarrow> 's" where
  "for_each f [] s = s"
| "for_each f (x # xs) s = for_each f xs (f x s)"

subsection \<open>Inline accessors of Solver.h\<close>

text \<open>Modelled from the spec: the accessors of Solver.h.  The decision level is the
  height of the stack of trail limits; a variable's value, level and reason are read from
  \<open>assigns\<close> and \<open>vardata\<close>; a literal's value is its variable's value, flipped by the
  polarity bit.\<close>

definition decisionLevel :: "solver \<Rightarrow> nat" where
  "decisionLevel s = length (trail_lim s)"

definition nVars :: "solver \<Rightarrow> nat" where
  "nVars s = next_var s"

definition nAssigns :: "solver \<Rightarrow> nat" where
  "nAssigns s = length (trail s)"

definition value_var :: "solver \<Rightarrow> var \<Rightarrow> lbool" where
  "value_var s x = assigns s ! x"

definition value_lit :: "solver \<Rightarrow> lit \<Rightarrow> lbool" where
  "value_lit s p = lxor (assigns s ! var p) (sign p)"

definition level_of :: "solver \<Rightarrow> var \<Rightarrow> nat" where
  "level_of s x = level (vardata s ! x)"

definition reason_of :: "solver \<Rightarrow> var \<Rightarrow> cref option" where
  "reason_of s x = reason (vardata s ! x)"

definition newDecisionLevel :: "solver \<Rightarrow> solver" where
  "newDecisionLevel s = s\<lparr>trail_lim := trail_lim s @ [length (trail s)]\<rparr>"

text \<open>Modelled from the spec: a clause is locked when it is the reason of the current
  assignment of its first literal.\<close>

definition locked :: "solver \<Rightarrow> cref \<Rightarrow> bool" where
  "locked s cr = (let c = lits (ca s ! cr) in
     value_lit s (c ! 0) = l_True \<and> reason_of s (var (c ! 0)) = Some cr)"

text \<open>Modelled from the spec: the occurrence lists of SolverTypes.h.  \<open>smudge\<close> marks a
  list dirty, \<open>clean\<close> drops the watchers of removed clauses (mark 1) from one list,
  \<open>lookup\<close> cleans a dirty list before it is read, \<open>cleanAll\<close> cleans every dirty list.\<close>

definition watch_list :: "solver \<Rightarrow> lit \<Rightarrow> watcher list" where
  "watch_list s p = watches s ! toInt p"

definition set_watch_list :: "lit \<Rightarrow> watcher list \<Rightarrow> solver \<Rightarrow> solver" where
  "set_watch_list p ws s = s\<lparr>watches := (watches s)[toInt p := ws]\<rparr>"

definition smudge :: "lit \<Rightarrow> solver \<Rightarrow> solver" where
  "smudge p s = (if p \<in> set (dirties s) then s else s\<lparr>dirties := dirties s @ [p]\<rparr>)"

definition clean :: "lit \<Rightarrow> solver \<Rightarrow> solver" where
  "clean p s =
     (set_watch_list p (filter (\<lambda>w. mark (ca s ! cref w) \<noteq> 1) (watch_list s p)) s)
       \<lparr>dirties := removeAll p (dirties s)\<rparr>"

definition lookup :: "lit \<Rightarrow> solver \<Rightarrow> solver" where
  "lookup p s = (if p \<in> set (dirties s) then clean p s else s)"

definition cleanAll :: "solver \<Rightarrow> solver" where
  "cleanAll s = for_each clean (dirties s) s"

section \<open>Enqueueing and unit propagation\<close>

definition uncheckedEnqueue :: "lit \<Rightarrow> cref option \<Rightarrow> solver \<Rightarrow> solver" where
  "uncheckedEnqueue p frm s =
     s\<lparr>assigns := (assigns s)[var p := lbool_of (\<not> sign p)],
       vardata := (vardata s)[var p := \<lparr>reason = frm, level = decisionLevel s\<rparr>],
       trail := trail s @ [p]\<rparr>"

text \<open>The scan \<^verbatim>\<open>for (int k = 2; k < c.size(); k++) if (value(c[k]) != l_False)\<close>:
  the first index from \<open>k\<close> on whose element satisfies \<open>P\<close>.\<close>

primrec first_index :: "('a \<Rightarrow> bool) \<Rightarrow> 'a list \<Rightarrow> nat \<Rightarrow> nat option" where
  "first_index P [] k = None"
| "first_index P (x # xs) k = (if P x then Some k else first_index P xs (Suc k))"

definition set_lits :: "cref \<Rightarrow> lit list \<Rightarrow> solver \<Rightarrow> solver" where
  "set_lits cr ls s = s\<lparr>ca := (ca s)[cr := (ca s ! cr)\<lparr>lits := ls\<rparr>]\<rparr>"

definition push_watch :: "lit \<Rightarrow> watcher \<Rightarrow> solver \<Rightarrow> solver" where
  "push_watch p w s = set_watch_list p (watch_list s p @ [w]) s"

text \<open>``Make sure the false literal is data[1]'': the literals of the watched clause
  after \<^verbatim>\<open>if (c[0] == false_lit) c[0] = c[1], c[1] = false_lit\<close>.\<close>

definition watched_first :: "lit \<Rightarrow> watcher \<Rightarrow> solver \<Rightarrow> lit list" where
  "watched_first p w s =
     (let c0 = lits (ca s ! cref w)
      in if c0 ! 0 = neg p then c0[0 := c0 ! 1, 1 := neg p] else c0)"

text \<open>The inner loop of \<^verbatim>\<open>propagate\<close> over the watchers of the literal \<open>p\<close>: \<open>ws\<close> are
  the watchers from \<^verbatim>\<open>i\<close> to \<^verbatim>\<open>end\<close>, \<open>kept\<close> the watchers already copied to
  \<^verbatim>\<open>j\<close>.  It returns the conflicting clause (if any), the final watch list of \<open>p\<close> and
  the state.\<close>

fun propagate_ws :: "lit \<Rightarrow> watcher list \<Rightarrow> watcher list \<Rightarrow> solver
    \<Rightarrow> cref option \<times> watcher list \<times> solver" where
  "propagate_ws p [] kept s = (None, kept, s)"
| "propagate_ws p (w # ws) kept s =
    (if value_lit s (blocker w) = l_True then propagate_ws p ws (kept @ [w]) s
     else
       let cr = cref w;
           false_lit = neg p;
           c1 = watched_first p w s;
           s1 = set_lits cr c1 s;
           first = c1 ! 0;
           w' = Watcher cr first
       in
         if first \<noteq> blocker w \<and> value_lit s1 first = l_True
         then propagate_ws p ws (kept @ [w']) s1
         else
           (case first_index (\<lambda>l. value_lit s1 l \<noteq> l_False) (drop 2 c1) 2 of
              Some k \<Rightarrow>
                let c2 = c1[1 := c1 ! k, k := false_lit];
                    s2 = push_watch (neg (c2 ! 1)) w' (set_lits cr c2 s1)
                in propagate_ws p ws kept s2
            | None \<Rightarrow>
                if value_lit s1 first = l_False
                then (Some cr, kept @ [w'] @ ws, s1\<lparr>qhead := length (trail s1)\<rparr>)
                else propagate_ws p ws (kept @ [w']) (uncheckedEnqueue first (Some cr) s1)))"

text \<open>One round of the outer loop: take \<open>p = trail[qhead++]\<close>, look its watch list up
  (cleaning it when dirty), run the inner loop and shrink the list to what was kept.\<close>

definition propagate_lit :: "solver \<Rightarrow> cref option \<times> solver" where
  "propagate_lit s =
     (let p = trail s ! qhead s;
          s0 = lookup p (s\<lparr>qhead := qhead s + 1\<rparr>);
          (confl, kept, s1) = propagate_ws p (watch_list s0 p) [] s0
      in (confl, set_watch_list p kept s1))"

partial_function (option) propagate_loop ::
    "cref option \<Rightarrow> nat \<Rightarrow> solver \<Rightarrow> (cref option \<times> nat \<times> solver) option" where
  "propagate_loop confl num_props s =
     (if qhead s < length (trail s)
      then (case propagate_lit s of
              (c, s') \<Rightarrow> propagate_loop (case c of None \<Rightarrow> confl | Some cr \<Rightarrow> Some cr)
                           (num_props + 1) s')
      else Some (confl, num_props, s))"

declare propagate_loop.simps [code]

definition propagate :: "solver \<Rightarrow> (cref option \<times> solver) option" where
  "propagate s =
     (case propagate_loop None 0 s of
        None \<Rightarrow> None
      | Some (confl, num_props, s') \<Rightarrow>
          Some (confl,
            s'\<lparr>stat := (stat s')\<lparr>propagations := propagations (stat s') + num_props\<rparr>,
               simpDB_props := simpDB_props s' - int num_props\<rparr>))"

text \<open>The state of the outer loop of \<^verbatim>\<open>propagate\<close> after \<open>k\<close> rounds from \<open>s\<close> that met
  no conflict: \<open>None\<close> when the queue runs empty or a conflict is met before.\<close>

fun propagate_rounds :: "nat \<Rightarrow> solver \<Rightarrow> solver option" where
  "propagate_rounds 0 s = Some s"
| "propagate_rounds (Suc k) s =
     (if qhead s < length (trail s)
      then (case propagate_lit s of
              (None, s') \<Rightarrow> propagate_rounds k s'
            | (Some cr, s') \<Rightarrow> None)
      else None)"

section \<open>Decision heap and activities\<close>

text \<open>Modelled from the spec: the decision heap of Heap.h, a priority structure holding
  each variable at most once, ordered by activity descending.  \<open>heap_insert\<close> adds a
  variable, \<open>removeMin\<close> removes and returns a variable of highest activity.\<close>

definition inHeap :: "solver \<Rightarrow> var \<Rightarrow> bool" where
  "inHeap s x = (x \<in> set (order_heap s))"

definition heap_insert :: "var \<Rightarrow> solver \<Rightarrow> solver" where
  "heap_insert x s = s\<lparr>order_heap := order_heap s @ [x]\<rparr>"

definition heap_top :: "real list \<Rightarrow> var list \<Rightarrow> var" where
  "heap_top act h = for_each (\<lambda>y x. if act ! x < act ! y then y else x) (tl h) (hd h)"

definition removeMin :: "solver \<Rightarrow> var \<times> solver" where
  "removeMin s = (let x = heap_top (activity s) (order_heap s)
                  in (x, s\<lparr>order_heap := remove1 x (order_heap s)\<rparr>))"

text \<open>Modelled from the spec: \<^verbatim>\<open>insertVarOrder\<close> and \<^verbatim>\<open>setDecisionVar\<close> of Solver.h.
  A variable enters the heap when it is decision-eligible and not in the heap yet.\<close>

definition insertVarOrder :: "var \<Rightarrow> solver \<Rightarrow> solver" where
  "insertVarOrder x s = (if \<not> inHeap s x \<and> decision s ! x then heap_insert x s else s)"

definition setDecisionVar :: "var \<Rightarrow> bool \<Rightarrow> solver \<Rightarrow> solver" where
  "setDecisionVar v b s =
     (let d = (if b \<and> \<not> decision s ! v then dec_vars (stat s) + 1
               else if \<not> b \<and> decision s ! v then dec_vars (stat s) - 1
               else dec_vars (stat s))
      in insertVarOrder v (s\<lparr>stat := (stat s)\<lparr>dec_vars := d\<rparr>, decision := (decision s)[v := b]\<rparr>))"

text \<open>Modelled from the spec: the activity channels of Solver.h.  A bump adds the
  channel's increment to the variable's activity and rescales all activities and the
  increment when the bound \<open>1e100\<close> is passed; a decay grows the channel's increment.
  The heap is ordered by the activities it reads, so it needs no reordering here.\<close>

definition rescale_bound :: real where
  "rescale_bound = 10 ^ 100"

definition varBumpActivity :: "var \<Rightarrow> solver \<Rightarrow> solver" where
  "varBumpActivity v s =
     (let a = (activity s)[v := activity s ! v + var_inc s]
      in if a ! v > rescale_bound
         then s\<lparr>activity := map (\<lambda>x. x * (1 / rescale_bound)) a,
                var_inc := var_inc s * (1 / rescale_bound)\<rparr>
         else s\<lparr>activity := a\<rparr>)"

definition varBumpActivity_New1 :: "var \<Rightarrow> solver \<Rightarrow> solver" where
  "varBumpActivity_New1 v s =
     (let a = (activity s)[v := activity s ! v + var_inc1 s]
      in if a ! v > rescale_bound
         then s\<lparr>activity := map (\<lambda>x. x * (1 / rescale_bound)) a,
                var_inc1 := var_inc1 s * (1 / rescale_bound)\<rparr>
         else s\<lparr>activity := a\<rparr>)"

definition varDecayActivity :: "solver \<Rightarrow> solver" where
  "varDecayActivity s = s\<lparr>var_inc := var_inc s * (1 / var_decay (opt s))\<rparr>"

text \<open>Modelled from the spec: the second channel decays by a constant of its own, an
  order of magnitude away from \<open>var_decay\<close>.\<close>

definition var_decay1 :: real where
  "var_decay1 = 0.5"

definition varDecayActivity_New1 :: "solver \<Rightarrow> solver" where
  "varDecayActivity_New1 s = s\<lparr>var_inc1 := var_inc1 s * (1 / var_decay1)\<rparr>"

definition claDecayActivity :: "solver \<Rightarrow> solver" where
  "claDecayActivity s = s\<lparr>cla_inc := cla_inc s * (1 / clause_decay (opt s))\<rparr>"

definition set_cl_activity :: "cref \<Rightarrow> real \<Rightarrow> solver \<Rightarrow> solver" where
  "set_cl_activity cr a s = s\<lparr>ca := (ca s)[cr := (ca s ! cr)\<lparr>cl_activity := a\<rparr>]\<rparr>"

text \<open>Modelled from the spec: \<^verbatim>\<open>claBumpActivity\<close> of Solver.h.  The clause's activity
  grows by \<open>cla_inc\<close>; past \<open>1e20\<close> the activities of all learned clauses and the
  increment are scaled down.\<close>

definition claBumpActivity :: "cref \<Rightarrow> solver \<Rightarrow> solver" where
  "claBumpActivity cr s =
     (let s1 = set_cl_activity cr (cl_activity (ca s ! cr) + cla_inc s) s
      in if cl_activity (ca s1 ! cr) > 10 ^ 20
         then (for_each (\<lambda>l t. set_cl_activity l (cl_activity (ca t ! l) * (1 / 10 ^ 20)) t)
                 (learnts s1) s1)\<lparr>cla_inc := cla_inc s1 * (1 / 10 ^ 20)\<rparr>
         else s1)"

section \<open>Variables and clauses\<close>

text \<open>Modelled from the spec: \<^verbatim>\<open>insert\<close> of the per-variable maps, which grows the map
  to hold the key and stores the value.\<close>

definition vinsert :: "nat \<Rightarrow> 'a \<Rightarrow> 'a list \<Rightarrow> 'a list" where
  "vinsert v x xs = (if v < length xs then xs[v := x]
                     else xs @ replicate (v - length xs) x @ [x])"

definition newVar :: "env \<Rightarrow> lbool \<Rightarrow> bool \<Rightarrow> solver \<Rightarrow> var \<times> solver" where
  "newVar E upol dvar s =
     (let (v, s1) = (if free_vars s \<noteq> []
                     then (last (free_vars s), s\<lparr>free_vars := butlast (free_vars s)\<rparr>)
                     else (next_var s, s\<lparr>next_var := next_var s + 1\<rparr>));
          (a, sd) = (if rnd_init_act (opt s1)
                     then (case drand E (random_seed s1) of (r, sd) \<Rightarrow> (r * 0.00001, sd))
                     else (0, random_seed s1));
          s2 = s1\<lparr>watches := watches s1 @ replicate (2 * v + 2 - length (watches s1)) [],
                  assigns := vinsert v l_Undef (assigns s1),
                  vardata := vinsert v \<lparr>reason = None, level = 0\<rparr> (vardata s1),
                  activity := vinsert v a (activity s1),
                  random_seed := sd,
                  seen := vinsert v 0 (seen s1),
                  first_polarity := vinsert v False (first_polarity s1),
                  polarity := vinsert v (default_upol (opt s1)) (polarity s1),
                  user_pol := vinsert v upol (user_pol s1),
                  decision := (if v < length (decision s1) then decision s1
                               else decision s1 @ replicate (v + 1 - length (decision s1)) False)\<rparr>
      in (v, setDecisionVar v dvar s2))"

text \<open>Modelled from the spec: \<^verbatim>\<open>ca.alloc\<close>, which stores a fresh clause in the arena
  and returns its handle.\<close>

definition alloc :: "lit list \<Rightarrow> bool \<Rightarrow> solver \<Rightarrow> cref \<times> solver" where
  "alloc ps lrn s =
     (length (ca s),
      s\<lparr>ca := ca s @ [\<lparr>lits = ps, learnt = lrn, cl_activity = 0, mark = 0, relocation = None\<rparr>]\<rparr>)"

definition attachClause :: "cref \<Rightarrow> solver \<Rightarrow> solver" where
  "attachClause cr s =
     (let c = ca s ! cr;
          s1 = push_watch (neg (lits c ! 0)) (Watcher cr (lits c ! 1)) s;
          s2 = push_watch (neg (lits c ! 1)) (Watcher cr (lits c ! 0)) s1;
          n = int (length (lits c))
      in if learnt c
         then s2\<lparr>stat := (stat s2)\<lparr>num_learnts := num_learnts (stat s2) + 1,
                                   learnts_literals := learnts_literals (stat s2) + n\<rparr>\<rparr>
         else s2\<lparr>stat := (stat s2)\<lparr>num_clauses := num_clauses (stat s2) + 1,
                                   clauses_literals := clauses_literals (stat s2) + n\<rparr>\<rparr>)"

text \<open>Modelled from the spec: \<^verbatim>\<open>remove\<close> of Alg.h on a watch list, which deletes the
  first watcher of the given clause.\<close>

fun remove_watch :: "cref \<Rightarrow> watcher list \<Rightarrow> watcher list" where
  "remove_watch cr [] = []"
| "remove_watch cr (w # ws) = (if cref w = cr then ws else w # remove_watch cr ws)"

definition detachClause :: "cref \<Rightarrow> bool \<Rightarrow> solver \<Rightarrow> solver" where
  "detachClause cr strict s =
     (let c = ca s ! cr;
          l0 = neg (lits c ! 0);
          l1 = neg (lits c ! 1);
          s1 = (if strict
                then (let t = set_watch_list l0 (remove_watch cr (watch_list s l0)) s
                      in set_watch_list l1 (remove_watch cr (watch_list t l1)) t)
                else smudge l1 (smudge l0 s));
          n = int (length (lits c))
      in if learnt c
         then s1\<lparr>stat := (stat s1)\<lparr>num_learnts := num_learnts (stat s1) - 1,
                                   learnts_literals := learnts_literals (stat s1) - n\<rparr>\<rparr>
         else s1\<lparr>stat := (stat s1)\<lparr>num_clauses := num_clauses (stat s1) - 1,
                                   clauses_literals := clauses_literals (stat s1) - n\<rparr>\<rparr>)"

text \<open>\<^verbatim>\<open>ca.free\<close> only counts the wasted space, which the model reads off the marks.\<close>

definition removeClause :: "cref \<Rightarrow> solver \<Rightarrow> solver" where
  "removeClause cr s =
     (let s1 = detachClause cr False s;
          x = var (lits (ca s1 ! cr) ! 0);
          s2 = (if locked s1 cr
                then s1\<lparr>vardata := (vardata s1)[x := (vardata s1 ! x)\<lparr>reason := None\<rparr>]\<rparr>
                else s1)
      in s2\<lparr>ca := (ca s2)[cr := (ca s2 ! cr)\<lparr>mark := 1\<rparr>]\<rparr>)"

definition satisfied :: "solver \<Rightarrow> lit list \<Rightarrow> bool" where
  "satisfied s c = list_ex (\<lambda>l. value_lit s l = l_True) c"

text \<open>The scan of \<^verbatim>\<open>addClause_\<close> over the sorted literals: \<open>None\<close> when the clause is
  satisfied or a tautology (the early \<^verbatim>\<open>return true\<close>), else the literals kept.\<close>

fun addClause_scan :: "solver \<Rightarrow> lit list \<Rightarrow> lit option \<Rightarrow> lit list \<Rightarrow> lit list option" where
  "addClause_scan s [] p out = Some out"
| "addClause_scan s (q # qs) p out =
     (if value_lit s q = l_True \<or> Some q = map_option neg p then None
      else if value_lit s q \<noteq> l_False \<and> Some q \<noteq> p then addClause_scan s qs (Some q) (out @ [q])
      else addClause_scan s qs p out)"

text \<open>Modelled from the spec: \<^verbatim>\<open>sort\<close> of Sort.h on literals, by their integer code.
  \<^verbatim>\<open>addClause_\<close> is written \<open>addClause'\<close>, a name cannot end in an underscore.\<close>

definition sort_lits :: "lit list \<Rightarrow> lit list" where
  "sort_lits ps = sort_key toInt ps"

definition addClause' :: "lit list \<Rightarrow> solver \<Rightarrow> (bool \<times> solver) option" where
  "addClause' ps s0 =
     (let s = s0\<lparr>addClause_SingleLitReturned := False\<rparr> in
      if \<not> ok s then Some (False, s)
      else
        (case addClause_scan s (sort_lits ps) None [] of
           None \<Rightarrow> Some (True, s)
         | Some [] \<Rightarrow> Some (False, s\<lparr>ok := False\<rparr>)
         | Some [p] \<Rightarrow>
             (case propagate (uncheckedEnqueue p None s) of
                None \<Rightarrow> None
              | Some (confl, s1) \<Rightarrow>
                  Some (confl = None,
                        s1\<lparr>addClause_SingleLitReturned := True,
                           addClause_SingleLit := Some p,
                           ok := (confl = None)\<rparr>))
         | Some ps' \<Rightarrow>
             (case alloc ps' False s of
                (cr, s1) \<Rightarrow> Some (True, attachClause cr (s1\<lparr>clauses := clauses s1 @ [cr]\<rparr>)))))"

section \<open>Backtracking and branching\<close>

definition cancel_step :: "nat \<Rightarrow> solver \<Rightarrow> solver" where
  "cancel_step c s =
     (let x = var (trail s ! c);
          s1 = s\<lparr>assigns := (assigns s)[x := l_Undef]\<rparr>;
          s2 = (if phase_saving (opt s1) > 1 \<or> (phase_saving (opt s1) = 1 \<and> c > last (trail_lim s1))
                then s1\<lparr>polarity := (polarity s1)[x := sign (trail s1 ! c)]\<rparr> else s1)
      in insertVarOrder x (s2\<lparr>first_polarity := (first_polarity s2)[x := True]\<rparr>))"

definition cancelUntil :: "nat \<Rightarrow> solver \<Rightarrow> solver" where
  "cancelUntil lev s =
     (if decisionLevel s > lev
      then (let lim = trail_lim s ! lev;
                s1 = for_each cancel_step (rev [lim ..< length (trail s)]) s
            in s1\<lparr>qhead := lim, trail := take lim (trail s1), trail_lim := take lev (trail_lim s1)\<rparr>)
      else s)"

text \<open>Modelled from the spec: \<^verbatim>\<open>irand\<close> of Solver.h, an index below \<open>n\<close> drawn with
  \<^verbatim>\<open>drand\<close>.\<close>

definition irand :: "env \<Rightarrow> real \<Rightarrow> nat \<Rightarrow> nat \<times> real" where
  "irand E sd n = (case drand E sd of (r, sd') \<Rightarrow> (nat \<lfloor>r * real n\<rfloor>, sd'))"

lemma for_each_append: "for_each f (xs @ ys) s = for_each f ys (for_each f xs s)"
  by (induction xs arbitrary: s) auto

lemma heap_top_fold_mem: "for_each (\<lambda>y x. if act ! x < act ! y then y else x) ys x0 \<in> set (x0 # ys)"
  by (induction ys arbitrary: x0) auto

lemma heap_top_mem: "h \<noteq> [] \<Longrightarrow> heap_top act h \<in> set h"
  using heap_top_fold_mem [of act "tl h" "hd h"] by (cases h) (auto simp: heap_top_def)

lemma removeMin_length:
  "order_heap s \<noteq> [] \<Longrightarrow> length (order_heap (snd (removeMin s))) < length (order_heap s)"
  by (simp add: removeMin_def Let_def length_remove1 heap_top_mem)

text \<open>The activity-based loop of \<^verbatim>\<open>pickBranchLit\<close>: pop the heap until the candidate
  is an unassigned decision variable, or the heap is empty.\<close>

function pick_loop :: "var option \<Rightarrow> solver \<Rightarrow> var option \<times> solver" where
  "pick_loop nxt s =
     (if nxt = None \<or> value_var s (the nxt) \<noteq> l_Undef \<or> \<not> decision s ! (the nxt)
      then (if order_heap s = [] then (None, s)
            else (case removeMin s of (x, s') \<Rightarrow> pick_loop (Some x) s'))
      else (nxt, s))"
  by pat_completeness auto
termination
  apply (relation "measure (\<lambda>(nxt, s). length (order_heap s))")
   apply simp
  subgoal for nxt s x xa
    using removeMin_length [of s] by (cases "removeMin s") auto
  done

text \<open>\<^verbatim>\<open>pickBranchLit\<close>, in three parts: the random decision, which may propose a
  variable of the heap; the activity-based loop; and the choice of the polarity.\<close>

definition pick_start :: "env \<Rightarrow> solver \<Rightarrow> var option \<times> solver" where
  "pick_start E s =
     (let (r, sd) = drand E (random_seed s);
          s0 = s\<lparr>random_seed := sd\<rparr>
      in if r < random_var_freq (opt s0) \<and> order_heap s0 \<noteq> []
         then (case irand E (random_seed s0) (length (order_heap s0)) of
                 (k, sd') \<Rightarrow>
                   (let x = order_heap s0 ! k; t = s0\<lparr>random_seed := sd'\<rparr>
                    in (Some x,
                        if value_var t x = l_Undef \<and> decision t ! x
                        then t\<lparr>stat := (stat t)\<lparr>rnd_decisions := rnd_decisions (stat t) + 1\<rparr>\<rparr>
                        else t)))
         else (None, s0))"

definition pick_var :: "env \<Rightarrow> solver \<Rightarrow> var option \<times> solver" where
  "pick_var E s = (case pick_start E s of (nxt0, s1) \<Rightarrow> pick_loop nxt0 s1)"

definition pickBranchLit :: "env \<Rightarrow> solver \<Rightarrow> lit option \<times> solver" where
  "pickBranchLit E s =
     (let in_vars = nVars s div 3;
          (nxt, s2) = pick_var E s
      in case nxt of
           None \<Rightarrow> (None, s2)
         | Some x \<Rightarrow>
             if user_pol s2 ! x \<noteq> l_Undef then (Some (mkLit x (user_pol s2 ! x = l_True)), s2)
             else if rnd_pol (opt s2)
             then (case drand E (random_seed s2) of
                     (r', sd') \<Rightarrow> (Some (mkLit x (r' < 0.5)), s2\<lparr>random_seed := sd'\<rparr>))
             else if \<not> first_polarity s2 ! x
             then (if x < in_vars then (Some (mkLit x (polarity s2 ! x)), s2)
                   else (Some (mkLit x True), s2\<lparr>polarity := (polarity s2)[x := True]\<rparr>))
             else (Some (mkLit x (polarity s2 ! x)), s2))"

section \<open>Conflict analysis\<close>

text \<open>The body of the loop of \<^verbatim>\<open>analyze\<close> over the literals \<open>q\<close> of the clause under
  resolution, on the state, the path counter and the literals pushed to
  \<^verbatim>\<open>out_learnt\<close> after the slot kept for the asserting literal.\<close>

definition analyze_lit :: "lit \<Rightarrow> solver \<times> int \<times> lit list \<Rightarrow> solver \<times> int \<times> lit list" where
  "analyze_lit q st =
     (case st of (s, pathC, out) \<Rightarrow>
        let in_vars = nVars s div 3;
            var_Value = value_var s (var q)
        in if seen s ! var q = 0 \<and> level_of s (var q) > 0
           then
             let s1 = (if var q < in_vars \<and> var_Value = l_True
                       then varBumpActivity_New1 (var q) s
                       else varBumpActivity (var q) s);
                 s2 = s1\<lparr>seen := (seen s1)[var q := 1]\<rparr>
             in if level_of s2 (var q) \<ge> decisionLevel s2
                then (s2, pathC + 1, out)
                else (s2, pathC, out @ [q])
           else (s, pathC, out))"

text \<open>The scan \<^verbatim>\<open>while (!seen[var(trail[index--])]);\<close>.  The model keeps \<open>index + 1\<close>,
  the number of trail entries not looked at yet; the result is the position of the last
  of them whose variable is marked, and \<open>None\<close> when the scan would leave the trail.\<close>

fun trail_scan :: "solver \<Rightarrow> nat \<Rightarrow> nat option" where
  "trail_scan s 0 = None"
| "trail_scan s (Suc i) = (if seen s ! var (trail s ! i) \<noteq> 0 then Some i else trail_scan s i)"

lemma trail_scan_less: "trail_scan s n = Some i \<Longrightarrow> i < n"
  by (induction n) (auto split: if_splits)

function analyze_loop :: "cref option \<Rightarrow> lit option \<Rightarrow> nat \<Rightarrow> int \<Rightarrow> lit list \<Rightarrow> solver
    \<Rightarrow> (lit \<times> lit list \<times> solver) option" where
  "analyze_loop confl p idx pathC out s =
     (case confl of
        None \<Rightarrow> None
      | Some cr \<Rightarrow>
          (case for_each analyze_lit (drop (if p = None then 0 else 1) (lits (ca s ! cr)))
                  (if learnt (ca s ! cr) then claBumpActivity cr s else s, pathC, out) of
             (s2, pathC2, out2) \<Rightarrow>
               (case trail_scan s2 idx of
                  None \<Rightarrow> None
                | Some i \<Rightarrow>
                    let p' = trail s2 ! i;
                        confl' = reason_of s2 (var p');
                        s3 = s2\<lparr>seen := (seen s2)[var p' := 0]\<rparr>
                    in if pathC2 - 1 > 0
                       then analyze_loop confl' (Some p') i (pathC2 - 1) out2 s3
                       else Some (p', out2, s3))))"
  by pat_completeness auto
termination
  apply (relation "measure (\<lambda>(confl, p, idx, pathC, out, s). idx)")
   apply simp
  apply (auto dest: trail_scan_less)
  done

declare analyze_loop.simps [simp del]

text \<open>\<^verbatim>\<open>litRedundant\<close>, with its explicit stack; \<open>toclear\<close> is \<^verbatim>\<open>analyze_toclear\<close>.  The
  marks in \<open>seen\<close> are \<open>0\<close> (undef), \<open>1\<close> (source), \<open>2\<close> (removable), \<open>3\<close> (failed).  The loop
  index \<open>i\<close> is the one read at the top of the body.\<close>

definition mark_failed :: "(nat \<times> lit) list \<Rightarrow> solver \<times> lit list \<Rightarrow> solver \<times> lit list" where
  "mark_failed stack st =
     for_each (\<lambda>e (s, tc). if seen s ! var (snd e) = 0
                         then (s\<lparr>seen := (seen s)[var (snd e) := 3]\<rparr>, tc @ [snd e])
                         else (s, tc)) stack st"

partial_function (option) litRedundant_loop ::
    "nat \<Rightarrow> lit \<Rightarrow> (nat \<times> lit) list \<Rightarrow> lit list \<Rightarrow> solver \<Rightarrow> (bool \<times> lit list \<times> solver) option" where
  "litRedundant_loop i p stack toclear s =
     (case reason_of s (var p) of
        None \<Rightarrow> None
      | Some cr \<Rightarrow>
          if i < length (lits (ca s ! cr))
          then
            (let l = lits (ca s ! cr) ! i in
             if level_of s (var l) = 0 \<or> seen s ! var l = 1 \<or> seen s ! var l = 2
             then litRedundant_loop (i + 1) p stack toclear s
             else if reason_of s (var l) = None \<or> seen s ! var l = 3
             then (case mark_failed (stack @ [(0, p)]) (s, toclear) of
                     (s', tc) \<Rightarrow> Some (False, tc, s'))
             else litRedundant_loop 1 l (stack @ [(i, p)]) toclear s)
          else
            (case (if seen s ! var p = 0
                   then (s\<lparr>seen := (seen s)[var p := 2]\<rparr>, toclear @ [p])
                   else (s, toclear)) of
               (s1, tc1) \<Rightarrow>
                 if stack = [] then Some (True, tc1, s1)
                 else litRedundant_loop (fst (last stack) + 1) (snd (last stack))
                        (butlast stack) tc1 s1))"

declare litRedundant_loop.simps [code]

definition litRedundant :: "lit \<Rightarrow> lit list \<Rightarrow> solver \<Rightarrow> (bool \<times> lit list \<times> solver) option" where
  "litRedundant p toclear s = litRedundant_loop 1 p [] toclear s"

text \<open>The minimisation loops of \<^verbatim>\<open>analyze\<close> over \<open>out_learnt[1..]\<close>: mode 2 (deep) and
  mode 1 (basic).  Each returns the literals kept.\<close>

fun minimize_deep :: "lit list \<Rightarrow> lit list \<Rightarrow> lit list \<Rightarrow> solver
    \<Rightarrow> (lit list \<times> lit list \<times> solver) option" where
  "minimize_deep [] kept toclear s = Some (kept, toclear, s)"
| "minimize_deep (l # ls) kept toclear s =
     (if reason_of s (var l) = None then minimize_deep ls (kept @ [l]) toclear s
      else (case litRedundant l toclear s of
              None \<Rightarrow> None
            | Some (r, tc, s') \<Rightarrow> minimize_deep ls (if r then kept else kept @ [l]) tc s'))"

definition minimize_basic :: "lit list \<Rightarrow> solver \<Rightarrow> lit list" where
  "minimize_basic ls s =
     filter (\<lambda>l. case reason_of s (var l) of
                   None \<Rightarrow> True
                 | Some cr \<Rightarrow> list_ex (\<lambda>q. seen s ! var q = 0 \<and> level_of s (var q) > 0)
                               (drop 1 (lits (ca s ! cr)))) ls"

text \<open>The search for the literal of the next-highest level: the first position from 2 on
  whose level is greater than that of the best position so far.\<close>

definition max_level_index :: "solver \<Rightarrow> lit list \<Rightarrow> nat" where
  "max_level_index s out =
     for_each (\<lambda>i max_i. if level_of s (var (out ! i)) > level_of s (var (out ! max_i)) then i else max_i)
       [2 ..< length out] 1"

definition clear_seen :: "lit list \<Rightarrow> solver \<Rightarrow> solver" where
  "clear_seen ls s = for_each (\<lambda>l t. t\<lparr>seen := (seen t)[var l := 0]\<rparr>) ls s"

text \<open>\<^verbatim>\<open>analyze\<close> returns the learned clause, the backtrack level and the state.\<close>

definition analyze :: "cref \<Rightarrow> solver \<Rightarrow> (lit list \<times> nat \<times> solver) option" where
  "analyze confl s =
     (case analyze_loop (Some confl) None (length (trail s)) 0 [] s of
        None \<Rightarrow> None
      | Some (p, out, s1) \<Rightarrow>
          let out_learnt = neg p # out in
          (case (if ccmin_mode (opt s1) = 2 then minimize_deep out [] out_learnt s1
                 else if ccmin_mode (opt s1) = 1 then Some (minimize_basic out s1, out_learnt, s1)
                 else Some (out, out_learnt, s1)) of
             None \<Rightarrow> None
           | Some (kept, toclear, s2) \<Rightarrow>
               let learnt' = neg p # kept;
                   s3 = s2\<lparr>stat := (stat s2)\<lparr>max_literals := max_literals (stat s2) + length out_learnt,
                                             tot_literals := tot_literals (stat s2) + length learnt'\<rparr>\<rparr>;
                   (learnt'', btlevel) =
                     (if length learnt' = 1 then (learnt', 0)
                      else (let max_i = max_level_index s3 learnt';
                                q = learnt' ! max_i
                            in (learnt'[max_i := learnt' ! 1, 1 := q], level_of s3 (var q))))
               in Some (learnt'', btlevel, clear_seen toclear s3)))"

text \<open>Modelled from the spec: the set of literals \<^verbatim>\<open>out_conflict\<close> keeps each literal
  once.\<close>

definition lset_insert :: "lit \<Rightarrow> lit list \<Rightarrow> lit list" where
  "lset_insert p xs = (if p \<in> set xs then xs else xs @ [p])"

definition analyzeFinal_step :: "nat \<Rightarrow> solver \<Rightarrow> solver" where
  "analyzeFinal_step i s =
     (let x = var (trail s ! i) in
      if seen s ! x \<noteq> 0
      then
        (let s1 = (case reason_of s x of
                     None \<Rightarrow> s\<lparr>conflict := lset_insert (neg (trail s ! i)) (conflict s)\<rparr>
                   | Some cr \<Rightarrow>
                       for_each (\<lambda>q t. if level_of t (var q) > 0 then t\<lparr>seen := (seen t)[var q := 1]\<rparr> else t)
                         (drop 1 (lits (ca s ! cr))) s)
         in s1\<lparr>seen := (seen s1)[x := 0]\<rparr>)
      else s)"

definition analyzeFinal :: "lit \<Rightarrow> solver \<Rightarrow> solver" where
  "analyzeFinal p s0 =
     (let s = s0\<lparr>conflict := [p]\<rparr> in
      if decisionLevel s = 0 then s
      else
        (let s1 = s\<lparr>seen := (seen s)[var p := 1]\<rparr>;
             s2 = for_each analyzeFinal_step (rev [trail_lim s1 ! 0 ..< length (trail s1)]) s1
         in s2\<lparr>seen := (seen s2)[var p := 0]\<rparr>))"

section \<open>Garbage collection\<close>

text \<open>Modelled from the spec: \<^verbatim>\<open>ca.reloc\<close>, on the old arena and the fresh one.  A
  clause already forwarded yields its new handle; otherwise it is copied to the fresh arena
  and the old copy is marked with the forwarding handle.\<close>

definition reloc :: "cref \<Rightarrow> clause list \<times> clause list \<Rightarrow> cref \<times> clause list \<times> clause list" where
  "reloc cr st =
     (case st of (old, to) \<Rightarrow>
        (case relocation (old ! cr) of
           Some n \<Rightarrow> (n, old, to)
         | None \<Rightarrow> (length to, old[cr := (old ! cr)\<lparr>relocation := Some (length to)\<rparr>], to @ [old ! cr])))"

fun reloc_watchers :: "watcher list \<Rightarrow> clause list \<times> clause list
    \<Rightarrow> watcher list \<times> clause list \<times> clause list" where
  "reloc_watchers [] st = ([], st)"
| "reloc_watchers (w # ws) st =
     (case reloc (cref w) st of
        (n, st1) \<Rightarrow> (case reloc_watchers ws st1 of
                       (ws', st2) \<Rightarrow> (Watcher n (blocker w) # ws', st2)))"

fun reloc_list :: "cref list \<Rightarrow> clause list \<times> clause list \<Rightarrow> cref list \<times> clause list \<times> clause list" where
  "reloc_list [] st = ([], st)"
| "reloc_list (cr # crs) st =
     (case reloc cr st of
        (n, st1) \<Rightarrow> (case reloc_list crs st1 of (crs', st2) \<Rightarrow> (n # crs', st2)))"

definition all_lits :: "nat \<Rightarrow> lit list" where
  "all_lits n = concat (map (\<lambda>v. [mkLit v False, mkLit v True]) [0 ..< n])"

definition reloc_watches :: "lit \<Rightarrow> solver \<times> clause list \<Rightarrow> solver \<times> clause list" where
  "reloc_watches p st =
     (case st of (s, to) \<Rightarrow>
        (case reloc_watchers (watch_list s p) (ca s, to) of
           (ws, old, to') \<Rightarrow> ((set_watch_list p ws s)\<lparr>ca := old\<rparr>, to')))"

definition reloc_reason :: "lit \<Rightarrow> solver \<times> clause list \<Rightarrow> solver \<times> clause list" where
  "reloc_reason p st =
     (case st of (s, to) \<Rightarrow>
        (let v = var p in
         case reason_of s v of
           None \<Rightarrow> (s, to)
         | Some r \<Rightarrow>
             if relocation (ca s ! r) \<noteq> None \<or> locked s r
             then (case reloc r (ca s, to) of
                     (n, old, to') \<Rightarrow>
                       (s\<lparr>vardata := (vardata s)[v := (vardata s ! v)\<lparr>reason := Some n\<rparr>], ca := old\<rparr>, to'))
             else (s, to)))"

definition isRemoved :: "solver \<Rightarrow> cref \<Rightarrow> bool" where
  "isRemoved s cr = (mark (ca s ! cr) = 1)"

text \<open>\<^verbatim>\<open>relocAll\<close> returns the state, whose arena is still the old one, and the fresh
  arena; \<^verbatim>\<open>garbageCollect\<close> installs the fresh arena.\<close>

definition relocAll :: "solver \<Rightarrow> solver \<times> clause list" where
  "relocAll s0 =
     (let s1 = cleanAll s0;
          (s2, to2) = for_each reloc_watches (all_lits (nVars s1)) (s1, []);
          (s3, to3) = for_each reloc_reason (trail s2) (s2, to2);
          (ls, old4, to4) = reloc_list (filter (\<lambda>cr. \<not> isRemoved s3 cr) (learnts s3)) (ca s3, to3);
          s4 = s3\<lparr>learnts := ls, ca := old4\<rparr>;
          (cs, old5, to5) = reloc_list (filter (\<lambda>cr. \<not> isRemoved s4 cr) (clauses s4)) (ca s4, to4)
      in (s4\<lparr>clauses := cs, ca := old5\<rparr>, to5))"

definition garbageCollect :: "solver \<Rightarrow> solver" where
  "garbageCollect s = (case relocAll s of (s', to) \<Rightarrow> s'\<lparr>ca := to\<rparr>)"

definition checkGarbage :: "env \<Rightarrow> solver \<Rightarrow> solver" where
  "checkGarbage E s = (if need_gc E (garbage_frac (opt s)) (ca s) then garbageCollect s else s)"

section \<open>Reducing and simplifying the clause database\<close>

definition reduceDB_lt :: "solver \<Rightarrow> cref \<Rightarrow> cref \<Rightarrow> bool" where
  "reduceDB_lt s x y =
     (length (lits (ca s ! x)) > 2 \<and>
      (length (lits (ca s ! y)) = 2 \<or> cl_activity (ca s ! x) < cl_activity (ca s ! y)))"

text \<open>Modelled from the spec: \<^verbatim>\<open>sort\<close> of Sort.h with a comparison, as an insertion
  sort.\<close>

fun insort_lt :: "('a \<Rightarrow> 'a \<Rightarrow> bool) \<Rightarrow> 'a \<Rightarrow> 'a list \<Rightarrow> 'a list" where
  "insort_lt lt x [] = [x]"
| "insort_lt lt x (y # ys) = (if lt x y then x # y # ys else y # insort_lt lt x ys)"

definition sort_lt :: "('a \<Rightarrow> 'a \<Rightarrow> bool) \<Rightarrow> 'a list \<Rightarrow> 'a list" where
  "sort_lt lt xs = foldr (insort_lt lt) xs []"

text \<open>The loop of \<^verbatim>\<open>reduceDB\<close>: \<open>n\<close> is \<^verbatim>\<open>learnts.size()\<close>, \<open>i\<close> the position of the head
  of the remaining list, \<open>kept\<close> the handles copied to \<^verbatim>\<open>j\<close>.\<close>

fun reduceDB_loop :: "real \<Rightarrow> nat \<Rightarrow> nat \<Rightarrow> cref list \<Rightarrow> cref list \<Rightarrow> solver \<Rightarrow> cref list \<times> solver" where
  "reduceDB_loop extra_lim n i [] kept s = (kept, s)"
| "reduceDB_loop extra_lim n i (cr # crs) kept s =
     (if length (lits (ca s ! cr)) > 2 \<and> \<not> locked s cr \<and>
         (i < n div 2 \<or> cl_activity (ca s ! cr) < extra_lim)
      then reduceDB_loop extra_lim n (Suc i) crs kept (removeClause cr s)
      else reduceDB_loop extra_lim n (Suc i) crs (kept @ [cr]) s)"

text \<open>\<^verbatim>\<open>reduceDB\<close> up to its last statement: sort, run the loop, shrink \<^verbatim>\<open>learnts\<close>.\<close>

definition reduceDB_clauses :: "solver \<Rightarrow> solver" where
  "reduceDB_clauses s =
     (let extra_lim = cla_inc s / real (length (learnts s));
          sorted = sort_lt (reduceDB_lt s) (learnts s);
          (kept, s1) = reduceDB_loop extra_lim (length sorted) 0 sorted [] (s\<lparr>learnts := sorted\<rparr>)
      in s1\<lparr>learnts := kept\<rparr>)"

text \<open>\<^verbatim>\<open>reduceDB\<close> ends with \<^verbatim>\<open>checkGarbage()\<close>.\<close>

definition reduceDB :: "env \<Rightarrow> solver \<Rightarrow> solver" where
  "reduceDB E s = checkGarbage E (reduceDB_clauses s)"

text \<open>The trimming loop of \<^verbatim>\<open>removeSatisfied\<close>: a false literal at \<open>k\<close> is overwritten
  by the last literal, which is popped, and \<open>k\<close> is looked at again.\<close>

function trim_false :: "solver \<Rightarrow> nat \<Rightarrow> lit list \<Rightarrow> lit list" where
  "trim_false s k c =
     (if k < length c
      then (if value_lit s (c ! k) = l_False then trim_false s k (butlast (c[k := last c]))
            else trim_false s (Suc k) c)
      else c)"
  by pat_completeness auto
termination
  by (relation "measure (\<lambda>(s, k, c). length c - k)") auto

fun removeSatisfied_loop :: "cref list \<Rightarrow> cref list \<Rightarrow> solver \<Rightarrow> cref list \<times> solver" where
  "removeSatisfied_loop [] kept s = (kept, s)"
| "removeSatisfied_loop (cr # crs) kept s =
     (if satisfied s (lits (ca s ! cr)) then removeSatisfied_loop crs kept (removeClause cr s)
      else removeSatisfied_loop crs (kept @ [cr])
             (set_lits cr (trim_false s 2 (lits (ca s ! cr))) s))"

definition removeSatisfied_learnts :: "solver \<Rightarrow> solver" where
  "removeSatisfied_learnts s =
     (case removeSatisfied_loop (learnts s) [] s of (kept, s1) \<Rightarrow> s1\<lparr>learnts := kept\<rparr>)"

text \<open>Modelled from the spec: \<^verbatim>\<open>order_heap.build\<close> fills the heap with the given
  variables.\<close>

definition rebuildOrderHeap :: "solver \<Rightarrow> solver" where
  "rebuildOrderHeap s =
     s\<lparr>order_heap := filter (\<lambda>v. decision s ! v \<and> value_var s v = l_Undef) [0 ..< nVars s]\<rparr>"

definition simplify :: "env \<Rightarrow> solver \<Rightarrow> (bool \<times> solver) option" where
  "simplify E s =
     (if \<not> ok s then Some (False, s\<lparr>ok := False\<rparr>)
      else
        (case propagate s of
           None \<Rightarrow> None
         | Some (Some cr, s1) \<Rightarrow> Some (False, s1\<lparr>ok := False\<rparr>)
         | Some (None, s1) \<Rightarrow>
             if int (nAssigns s1) = simpDB_assigns s1 \<or> simpDB_props s1 > 0 then Some (True, s1)
             else
               (let s2 = rebuildOrderHeap (checkGarbage E (removeSatisfied_learnts s1))
                in Some (True,
                     s2\<lparr>simpDB_assigns := int (nAssigns s2),
                        simpDB_props := clauses_literals (stat s2) + learnts_literals (stat s2)\<rparr>))))"

section \<open>Search\<close>

text \<open>Modelled from the spec: \<^verbatim>\<open>withinBudget\<close> of Solver.h, the test of the interrupt
  flag and of the conflict and propagation budgets (a negative budget is no budget).\<close>

definition withinBudget :: "solver \<Rightarrow> bool" where
  "withinBudget s =
     (\<not> asynch_interrupt (opt s) \<and>
      (conflict_budget (opt s) < 0 \<or> int (conflicts (stat s)) < conflict_budget (opt s)) \<and>
      (propagation_budget (opt s) < 0 \<or> int (propagations (stat s)) < propagation_budget (opt s)))"

definition progressEstimate :: "solver \<Rightarrow> real" where
  "progressEstimate s =
     (let F = 1 / real (nVars s);
          term = (\<lambda>i. let beg = (if i = 0 then 0 else trail_lim s ! (i - 1));
                            en = (if i = decisionLevel s then length (trail s) else trail_lim s ! i)
                        in F ^ i * (real en - real beg))
      in sum_list (map term [0 ..< decisionLevel s + 1]) / real (nVars s))"

text \<open>The two loops of \<^verbatim>\<open>luby\<close>.  The second loop divides by \<open>size\<close>; it stops with
  \<open>None\<close> should \<open>size\<close> reach \<open>0\<close>.\<close>

function luby_up :: "nat \<Rightarrow> nat \<Rightarrow> nat \<Rightarrow> nat \<times> nat" where
  "luby_up sz seq x = (if sz < x + 1 then luby_up (2 * sz + 1) (seq + 1) x else (sz, seq))"
  by pat_completeness auto
termination
  by (relation "measure (\<lambda>(sz, seq, x). x + 1 - sz)") auto

function luby_down :: "nat \<Rightarrow> int \<Rightarrow> nat \<Rightarrow> int option" where
  "luby_down sz seq x =
     (if sz = 0 then None
      else if sz - 1 \<noteq> x
      then (if (sz - 1) div 2 = 0 then None
            else luby_down ((sz - 1) div 2) (seq - 1) (x mod ((sz - 1) div 2)))
      else Some seq)"
  by pat_completeness auto
termination
  by (relation "measure (\<lambda>(sz, seq, x). sz)") auto

definition luby :: "real \<Rightarrow> nat \<Rightarrow> real option" where
  "luby y x = (case luby_up 1 0 x of (sz, seq) \<Rightarrow>
                 map_option (\<lambda>q. y ^ nat q) (luby_down sz (int seq) x))"

text \<open>The conflict branch of \<^verbatim>\<open>search\<close> above decision level 0: analyse, backtrack,
  install the learned clause, decay the activities, adjust the limit of learned clauses.\<close>

definition install_learnt :: "lit list \<Rightarrow> solver \<Rightarrow> solver" where
  "install_learnt learnt_clause s =
     (if length learnt_clause = 1 then uncheckedEnqueue (learnt_clause ! 0) None s
      else (case alloc learnt_clause True s of
              (cr, s1) \<Rightarrow>
                uncheckedEnqueue (learnt_clause ! 0) (Some cr)
                  (claBumpActivity cr (attachClause cr (s1\<lparr>learnts := learnts s1 @ [cr]\<rparr>)))))"

definition decay_activities :: "solver \<Rightarrow> solver" where
  "decay_activities s = claDecayActivity (varDecayActivity_New1 (varDecayActivity s))"

definition adjust_learntsize :: "solver \<Rightarrow> solver" where
  "adjust_learntsize s =
     (let s1 = s\<lparr>learntsize_adjust_cnt := learntsize_adjust_cnt s - 1\<rparr> in
      if learntsize_adjust_cnt s1 = 0
      then (let c = learntsize_adjust_confl s1 * learntsize_adjust_inc (opt s1)
            in s1\<lparr>learntsize_adjust_confl := c,
                  learntsize_adjust_cnt := \<lfloor>c\<rfloor>,
                  max_learnts := max_learnts s1 * learntsize_inc (opt s1)\<rparr>)
      else s1)"

definition search_conflict :: "cref \<Rightarrow> solver \<Rightarrow> solver option" where
  "search_conflict confl s =
     (case analyze confl s of
        None \<Rightarrow> None
      | Some (learnt_clause, backtrack_level, s1) \<Rightarrow>
          Some (adjust_learntsize (decay_activities
                  (install_learnt learnt_clause (cancelUntil backtrack_level s1)))))"

text \<open>The loop of \<^verbatim>\<open>search\<close> over the assumptions: the flag tells that an assumption
  is false (\<^verbatim>\<open>analyzeFinal\<close> has run and \<^verbatim>\<open>search\<close> returns \<^verbatim>\<open>l_False\<close>); otherwise
  the literal is the next assumption to enqueue, if any.\<close>

function assume_loop :: "solver \<Rightarrow> bool \<times> lit option \<times> solver" where
  "assume_loop s =
     (if decisionLevel s < length (assumptions s)
      then (let p = assumptions s ! decisionLevel s in
            if value_lit s p = l_True then assume_loop (newDecisionLevel s)
            else if value_lit s p = l_False then (True, None, analyzeFinal (neg p) s)
            else (False, Some p, s))
      else (False, None, s))"
  by pat_completeness auto
termination
  by (relation "measure (\<lambda>s. length (assumptions s) - decisionLevel s)")
    (auto simp: newDecisionLevel_def decisionLevel_def)

datatype search_step = Return lbool solver | Continue int solver

text \<open>One round of the loop of \<^verbatim>\<open>search\<close>: either \<^verbatim>\<open>search\<close> returns, or the loop goes
  on with the conflict count of this restart and the state.\<close>

definition search_decide :: "env \<Rightarrow> int \<Rightarrow> solver \<Rightarrow> search_step option" where
  "search_decide E conflictC s =
     (case (if decisionLevel s = 0 then simplify E s else Some (True, s)) of
        None \<Rightarrow> None
      | Some (simp_ok, s2) \<Rightarrow>
          if \<not> simp_ok then Some (Return l_False s2)
          else
            (let s3 = (if real_of_int (int (length (learnts s2)) - int (nAssigns s2)) \<ge> max_learnts s2
                       then reduceDB E s2 else s2)
             in case assume_loop s3 of
                  (failed, nxt, s4) \<Rightarrow>
                    if failed then Some (Return l_False s4)
                    else
                      (case nxt of
                         Some p \<Rightarrow> Some (Continue conflictC (uncheckedEnqueue p None (newDecisionLevel s4)))
                       | None \<Rightarrow>
                           (case pickBranchLit E
                                   (s4\<lparr>stat := (stat s4)\<lparr>decisions := decisions (stat s4) + 1\<rparr>\<rparr>) of
                              (None, s5) \<Rightarrow> Some (Return l_True s5)
                            | (Some p, s5) \<Rightarrow>
                                Some (Continue conflictC
                                        (uncheckedEnqueue p None (newDecisionLevel s5)))))))"

definition search_step :: "env \<Rightarrow> int \<Rightarrow> int \<Rightarrow> solver \<Rightarrow> search_step option" where
  "search_step E nof_conflicts conflictC s =
     (case propagate s of
        None \<Rightarrow> None
      | Some (Some confl, s1) \<Rightarrow>
          (let s2 = s1\<lparr>stat := (stat s1)\<lparr>conflicts := conflicts (stat s1) + 1\<rparr>\<rparr> in
           if decisionLevel s2 = 0 then Some (Return l_False s2)
           else map_option (Continue (conflictC + 1)) (search_conflict confl s2))
      | Some (None, s1) \<Rightarrow>
          if (nof_conflicts \<ge> 0 \<and> conflictC \<ge> nof_conflicts) \<or> \<not> withinBudget s1
          then Some (Return l_Undef (cancelUntil 0 (s1\<lparr>progress_estimate := progressEstimate s1\<rparr>)))
          else search_decide E conflictC s1)"

partial_function (option) search_loop :: "env \<Rightarrow> int \<Rightarrow> int \<Rightarrow> solver \<Rightarrow> (lbool \<times> solver) option" where
  "search_loop E nof_conflicts conflictC s =
     (case search_step E nof_conflicts conflictC s of
        None \<Rightarrow> None
      | Some r \<Rightarrow>
          (case r of
             Return status s' \<Rightarrow> Some (status, s')
           | Continue c s' \<Rightarrow> search_loop E nof_conflicts c s'))"

declare search_loop.simps [code]

definition search :: "env \<Rightarrow> int \<Rightarrow> solver \<Rightarrow> (lbool \<times> solver) option" where
  "search E nof_conflicts s =
     search_loop E nof_conflicts 0 (s\<lparr>stat := (stat s)\<lparr>starts := starts (stat s) + 1\<rparr>\<rparr>)"

section \<open>Solving\<close>

text \<open>Modelled from the spec: \<^verbatim>\<open>nClauses\<close> of Solver.h, the number of attached original
  clauses.\<close>

definition nClauses :: "solver \<Rightarrow> int" where
  "nClauses s = num_clauses (stat s)"

partial_function (option) solve_loop :: "env \<Rightarrow> nat \<Rightarrow> solver \<Rightarrow> (lbool \<times> solver) option" where
  "solve_loop E curr_restarts s =
     (case (if luby_restart (opt s) then luby (restart_inc (opt s)) curr_restarts
            else Some (restart_inc (opt s) ^ curr_restarts)) of
        None \<Rightarrow> None
      | Some rest_base \<Rightarrow>
          (case search E \<lfloor>rest_base * real_of_int (restart_first (opt s))\<rfloor> s of
             None \<Rightarrow> None
           | Some (status, s1) \<Rightarrow>
               if \<not> withinBudget s1 then Some (status, s1)
               else if status = l_Undef then solve_loop E (curr_restarts + 1) s1
               else Some (status, s1)))"

declare solve_loop.simps [code]

text \<open>\<^verbatim>\<open>solve_\<close>, written \<open>solve'\<close>.  The assumptions are the member \<open>assumptions\<close>.\<close>

definition solve' :: "env \<Rightarrow> solver \<Rightarrow> (lbool \<times> solver) option" where
  "solve' E s0 =
     (let s = s0\<lparr>model := [], conflict := []\<rparr> in
      if \<not> ok s then Some (l_False, s)
      else
        (let m = real_of_int (nClauses s) * learntsize_factor (opt s);
             s1 = s\<lparr>stat := (stat s)\<lparr>solves := solves (stat s) + 1\<rparr>,
                    max_learnts := (if m < real_of_int (min_learnts_lim (opt s))
                                    then real_of_int (min_learnts_lim (opt s)) else m),
                    learntsize_adjust_confl := real_of_int (learntsize_adjust_start_confl (opt s)),
                    learntsize_adjust_cnt := learntsize_adjust_start_confl (opt s)\<rparr>
         in case solve_loop E 0 s1 of
              None \<Rightarrow> None
            | Some (status, s2) \<Rightarrow>
                (let s3 = (if status = l_True
                           then s2\<lparr>model := map (value_var s2) [0 ..< nVars s2]\<rparr>
                           else if status = l_False \<and> conflict s2 = [] then s2\<lparr>ok := False\<rparr>
                           else s2)
                 in Some (status, cancelUntil 0 s3))))"

section \<open>The constructor\<close>

text \<open>The state built by \<^verbatim>\<open>Solver::Solver()\<close> with the default values of the options.
  The members the constructor leaves uninitialised are set by \<^verbatim>\<open>solve_\<close> before they
  are read; they start at \<open>0\<close> here.\<close>

definition default_opts :: opts where
  "default_opts =
     \<lparr>verbosity = 0, var_decay = 0.95, clause_decay = 0.999, random_var_freq = 0,
      luby_restart = True, ccmin_mode = 2, phase_saving = 2, rnd_pol = False,
      rnd_init_act = False, default_upol = False, garbage_frac = 0.20, min_learnts_lim = 0,
      restart_first = 100, restart_inc = 2, learntsize_factor = 1 / 3, learntsize_inc = 1.1,
      learntsize_adjust_start_confl = 100, learntsize_adjust_inc = 1.5,
      conflict_budget = - 1, propagation_budget = - 1, asynch_interrupt = False\<rparr>"

definition init_stats :: stats where
  "init_stats =
     \<lparr>solves = 0, starts = 0, decisions = 0, rnd_decisions = 0, propagations = 0,
      conflicts = 0, dec_vars = 0, num_clauses = 0, num_learnts = 0, clauses_literals = 0,
      learnts_literals = 0, max_literals = 0, tot_literals = 0\<rparr>"

definition init_solver :: solver where
  "init_solver =
     \<lparr>opt = default_opts, stat = init_stats, ok = True, ca = [], clauses = [], learnts = [],
      watches = [], dirties = [], assigns = [], vardata = [], activity = [], seen = [],
      first_polarity = [], polarity = [], user_pol = [], decision = [], trail = [],
      trail_lim = [], qhead = 0, order_heap = [], cla_inc = 1, var_inc = 1, var_inc1 = 1,
      random_seed = 91648253, simpDB_assigns = - 1, simpDB_props = 0, progress_estimate = 0,
      next_var = 0, free_vars = [], released_vars = [], model = [], conflict = [],
      assumptions = [], max_learnts = 0, learntsize_adjust_confl = 0,
      learntsize_adjust_cnt = 0, addClause_SingleLitReturned = False,
      addClause_SingleLit = None\<rparr>"

section \<open>Concrete instances\<close>

text \<open>An environment whose generator always draws \<open>0\<close> and which never collects garbage,
  and small formulas built through \<^verbatim>\<open>newVar\<close> and \<^verbatim>\<open>addClause_\<close>.\<close>

definition env0 :: env where
  "env0 = \<lparr>drand = (\<lambda>sd. (0, sd)), need_gc = (\<lambda>f c. False)\<rparr>"

definition new_vars :: "nat \<Rightarrow> solver \<Rightarrow> solver" where
  "new_vars n s = for_each (\<lambda>_ t. snd (newVar env0 l_Undef True t)) [0 ..< n] s"

fun add_clauses :: "lit list list \<Rightarrow> solver \<Rightarrow> solver option" where
  "add_clauses [] s = Some s"
| "add_clauses (c # cs) s =
     (case addClause' c s of None \<Rightarrow> None | Some (b, s') \<Rightarrow> add_clauses cs s')"

text \<open>One variable with the unit clause \<open>(1)\<close>, and the same after \<open>(\<not>1)\<close> was added too.\<close>

definition unit_solver :: solver where
  "unit_solver = the (add_clauses [[mkLit 0 False]] (new_vars 1 init_solver))"

definition contradictory :: solver where
  "contradictory = the (add_clauses [[mkLit 0 False], [mkLit 0 True]] (new_vars 1 init_solver))"

section \<open>Sequences of calls\<close>

text \<open>Modelled from the spec: the entry points of Solver.h as a caller uses them, one
  after the other: \<^verbatim>\<open>newVar\<close>, \<^verbatim>\<open>addClause_\<close>, and \<^verbatim>\<open>solve\<close>, which stores the
  assumptions and calls \<^verbatim>\<open>solve_\<close>.\<close>

datatype api_call = Call_newVar lbool bool | Call_addClause "lit list" | Call_solve "lit list"

datatype api_result = Res_var var | Res_bool bool | Res_lbool lbool

fun api_step :: "env \<Rightarrow> api_call \<Rightarrow> solver \<Rightarrow> (api_result \<times> solver) option" where
  "api_step E (Call_newVar upol dvar) s =
     (case newVar E upol dvar s of (v, s') \<Rightarrow> Some (Res_var v, s'))"
| "api_step E (Call_addClause ps) s =
     (case addClause' ps s of None \<Rightarrow> None | Some (b, s') \<Rightarrow> Some (Res_bool b, s'))"
| "api_step E (Call_solve assumps) s =
     (case solve' E (s\<lparr>assumptions := assumps\<rparr>) of
        None \<Rightarrow> None | Some (st, s') \<Rightarrow> Some (Res_lbool st, s'))"

fun api_run :: "env \<Rightarrow> api_call list \<Rightarrow> solver \<Rightarrow> (api_result list \<times> solver) option" where
  "api_run E [] s = Some ([], s)"
| "api_run E (c # cs) s =
     (case api_step E c s of
        None \<Rightarrow> None
      | Some (r, s') \<Rightarrow>
          (case api_run E cs s' of None \<Rightarrow> None | Some (rs, s'') \<Rightarrow> Some (r # rs, s'')))"

text \<open>What a call answers on a solver that is marked contradictory: a clause is refused
  and a solve is unsatisfiable.\<close>

fun refused :: "api_call \<Rightarrow> api_result \<Rightarrow> bool" where
  "refused (Call_newVar upol dvar) r = True"
| "refused (Call_addClause ps) r = (r = Res_bool False)"
| "refused (Call_solve assumps) r = (r = Res_lbool l_False)"

text \<open>Three variables, the clauses \<open>(\<not>1 \<or> 2)\<close>, \<open>(\<not>2 \<or> 3)\<close>, \<open>(\<not>2 \<or> \<not>3)\<close>, \<open>(1 \<or> \<not>2)\<close>,
  and the decision \<open>1\<close> enqueued at level 1 and not propagated yet: the first round of
  \<^verbatim>\<open>propagate\<close> derives \<open>2\<close>, the second one derives \<open>3\<close> and then finds the third clause
  false.\<close>

definition chained_conflict :: solver where
  "chained_conflict =
     uncheckedEnqueue (mkLit 0 False) None
       (newDecisionLevel
          (the (add_clauses [[mkLit 0 True, mkLit 1 False], [mkLit 1 True, mkLit 2 False],
                             [mkLit 1 True, mkLit 2 True], [mkLit 0 False, mkLit 1 True]]
                  (new_vars 3 init_solver))))"

text \<open>The same without the third clause: propagation ends without a conflict.\<close>

definition chained_units :: solver where
  "chained_units =
     uncheckedEnqueue (mkLit 0 False) None
       (newDecisionLevel
          (the (add_clauses [[mkLit 0 True, mkLit 1 False], [mkLit 1 True, mkLit 2 False],
                             [mkLit 0 False, mkLit 1 True]]
                  (new_vars 3 init_solver))))"

section \<open>Invariants of the trail and the heap\<close>

text \<open>The level recorded for the variable of a trail entry is the number of trail limits
  at or below its position, and the limits are ascending.\<close>

definition trail_levels_ok :: "solver \<Rightarrow> bool" where
  "trail_levels_ok s =
     (sorted (trail_lim s) \<and>
      list_all (\<lambda>i. level_of s (var (trail s ! i)) = length (filter (\<lambda>b. b \<le> i) (trail_lim s)))
        [0 ..< length (trail s)])"

text \<open>The heap holds every decision-eligible variable that is unassigned.\<close>

definition heap_covers :: "solver \<Rightarrow> bool" where
  "heap_covers s =
     list_all (\<lambda>v. decision s ! v \<and> value_var s v = l_Undef \<longrightarrow> v \<in> set (order_heap s))
       [0 ..< nVars s]"


text \<open>Four variables, the clause \<open>(\<not>1 \<or> 4)\<close> and the assumptions \<open>1\<close>, \<open>2\<close>, after two
  rounds of \<^verbatim>\<open>search\<close>: the first assumption was enqueued at level 1, variable 4 was
  propagated there, and the second assumption was enqueued at level 2.  Assumptions are
  not taken from the heap, which still holds all four variables.\<close>

definition two_assumptions :: solver where
  "two_assumptions =
     (case search_step env0 100 0
             ((the (add_clauses [[mkLit 0 True, mkLit 3 False]] (new_vars 4 init_solver)))
                \<lparr>assumptions := [mkLit 0 False, mkLit 1 False]\<rparr>) of
        Some (Continue c s) \<Rightarrow> (case search_step env0 100 c s of Some (Continue c' s') \<Rightarrow> s'))"

section \<open>The activities touched by a conflict\<close>

text \<open>What the branching heuristic reads: the activities and the increments of the two
  channels.\<close>

definition heur :: "solver \<Rightarrow> real list \<times> real \<times> real" where
  "heur s = (activity s, var_inc s, var_inc1 s)"

text \<open>The channel that C8 names for a variable \<open>v\<close>, decided on the state \<open>s0\<close> in which the
  conflict is analysed: the alternate channel when the index of \<open>v\<close> is below \<open>nVars()/3\<close> and
  \<open>v\<close> is assigned true, the ordinary one otherwise.\<close>

definition bump_channel :: "solver \<Rightarrow> var \<Rightarrow> solver \<Rightarrow> solver" where
  "bump_channel s0 v t =
     (if v < nVars s0 div 3 \<and> value_var s0 v = l_True then varBumpActivity_New1 v t
      else varBumpActivity v t)"

text \<open>The variables of the literals \<open>ls\<close> of a clause under resolution that are to be
  bumped, in order: those not marked in \<open>sn\<close> whose level \<open>lv\<close> is above 0, each of them
  once.\<close>

primrec bumped_vars :: "nat list \<Rightarrow> (var \<Rightarrow> nat) \<Rightarrow> lit list \<Rightarrow> var list" where
  "bumped_vars sn lv [] = []"
| "bumped_vars sn lv (q # qs) =
     (if sn ! var q = 0 \<and> lv (var q) > 0 then var q # bumped_vars (sn[var q := 1]) lv qs
      else bumped_vars sn lv qs)"

text \<open>The variables to be bumped over a whole run of the loop of \<^verbatim>\<open>analyze\<close>: those of the
  conflicting clause, then those of each reason clause that the loop resolves with (all
  its literals but the first), in the order in which the loop visits them.\<close>

function analyze_bumped :: "cref option \<Rightarrow> lit option \<Rightarrow> nat \<Rightarrow> int \<Rightarrow> lit list \<Rightarrow> solver
    \<Rightarrow> var list" where
  "analyze_bumped confl p idx pathC out s =
     (case confl of
        None \<Rightarrow> []
      | Some cr \<Rightarrow>
          bumped_vars (seen s) (level_of s) (drop (if p = None then 0 else 1) (lits (ca s ! cr))) @
          (case for_each analyze_lit (drop (if p = None then 0 else 1) (lits (ca s ! cr)))
                  (if learnt (ca s ! cr) then claBumpActivity cr s else s, pathC, out) of
             (s2, pathC2, out2) \<Rightarrow>
               (case trail_scan s2 idx of
                  None \<Rightarrow> []
                | Some i \<Rightarrow>
                    let p' = trail s2 ! i;
                        confl' = reason_of s2 (var p');
                        s3 = s2\<lparr>seen := (seen s2)[var p' := 0]\<rparr>
                    in if pathC2 - 1 > 0
                       then analyze_bumped confl' (Some p') i (pathC2 - 1) out2 s3
                       else [])))"
  by pat_completeness auto
termination
  apply (relation "measure (\<lambda>(confl, p, idx, pathC, out, s). idx)")
   apply simp
  apply (auto dest: trail_scan_less)
  done

declare analyze_bumped.simps [simp del]

text \<open>Two states with the same activities, increments and options.\<close>

definition same_heur :: "solver \<Rightarrow> solver \<Rightarrow> bool" where
  "same_heur s t \<longleftrightarrow> heur t = heur s \<and> opt t = opt s"

text \<open>Three variables and the clauses \<open>(\<not>1 \<or> 2)\<close>, \<open>(\<not>1 \<or> \<not>2)\<close>, with the increments of both
  channels decayed once (as after an earlier conflict) and the decision \<open>1\<close> enqueued at
  level 1 and not propagated yet.\<close>

definition bump_conflict :: solver where
  "bump_conflict =
     uncheckedEnqueue (mkLit 0 False) None
       (newDecisionLevel
          (varDecayActivity_New1 (varDecayActivity
             (the (add_clauses [[mkLit 0 True, mkLit 1 False], [mkLit 0 True, mkLit 1 True]]
                     (new_vars 3 init_solver))))))"

text \<open>Two variables and the four clauses over them: every decision meets a conflict at
  level 1, and the unit clause learned from it meets a second conflict at level 0.\<close>

definition two_conflicts :: solver where
  "two_conflicts =
     the (add_clauses [[mkLit 0 False, mkLit 1 False], [mkLit 0 False, mkLit 1 True],
                       [mkLit 0 True, mkLit 1 False], [mkLit 0 True, mkLit 1 True]]
            (new_vars 2 init_solver))"

section \<open>What reduceDB keeps\<close>

text \<open>What C9 says of the clause at position \<open>i\<close> of the sorted list: it is dropped when
  it is neither binary nor locked and lies in the lower half of the list (or its activity
  is below the limit \<^verbatim>\<open>cla_inc / learnts.size()\<close>).\<close>

definition reduceDB_drops :: "solver \<Rightarrow> nat \<Rightarrow> cref \<Rightarrow> bool" where
  "reduceDB_drops s i cr \<longleftrightarrow>
     length (lits (ca s ! cr)) > 2 \<and> \<not> locked s cr \<and>
     (i < length (learnts s) div 2 \<or>
      cl_activity (ca s ! cr) < cla_inc s / real (length (learnts s)))"

text \<open>The learned clauses that are not dropped, in sorted order.\<close>

definition reduceDB_kept :: "solver \<Rightarrow> cref list" where
  "reduceDB_kept s =
     map snd (filter (\<lambda>(i, cr). \<not> reduceDB_drops s i cr)
                (enumerate 0 (sort_lt (reduceDB_lt s) (learnts s))))"

text \<open>A well-formed list of learned clauses: no handle twice, every handle in the arena
  and not marked removed, and no forwarding handle left in the arena.\<close>

definition learnts_wf :: "solver \<Rightarrow> bool" where
  "learnts_wf s \<longleftrightarrow>
     distinct (learnts s) \<and>
     list_all (\<lambda>cr. cr < length (ca s) \<and> mark (ca s ! cr) \<noteq> 1) (learnts s) \<and>
     list_all (\<lambda>c. relocation c = None) (ca s)"

text \<open>Two states that differ at most in the removal marks of the clauses (and in fields
  that no clause, assignment or reason is read from).\<close>

definition marks_only :: "solver \<Rightarrow> solver \<Rightarrow> bool" where
  "marks_only s0 s \<longleftrightarrow>
     assigns s = assigns s0 \<and> vardata s = vardata s0 \<and> length (ca s) = length (ca s0) \<and>
     (\<forall>cr<length (ca s0). ca s ! cr = (ca s0 ! cr)\<lparr>mark := mark (ca s ! cr)\<rparr>)"

text \<open>The order of \<^verbatim>\<open>reduceDB_lt\<close>: no element is below an earlier one.\<close>

definition ascending :: "('a \<Rightarrow> 'a \<Rightarrow> bool) \<Rightarrow> 'a list \<Rightarrow> bool" where
  "ascending lt xs \<longleftrightarrow> (\<forall>i j. i < j \<and> j < length xs \<longrightarrow> \<not> lt (xs ! j) (xs ! i))"

text \<open>Copying to the fresh arena: every forwarding handle set so far points to a copy of
  the clause as it was when the collection began.\<close>

definition reloc_inv :: "clause list \<Rightarrow> clause list \<Rightarrow> clause list \<Rightarrow> bool" where
  "reloc_inv old0 old to \<longleftrightarrow>
     length old = length old0 \<and>
     (\<forall>cr<length old0.
        old ! cr = (old0 ! cr)\<lparr>relocation := relocation (old ! cr)\<rparr> \<and>
        (\<forall>n. relocation (old ! cr) = Some n \<longrightarrow> n < length to \<and> to ! n = old0 ! cr))"

text \<open>The invariant of \<^verbatim>\<open>relocAll\<close> on the state and the fresh arena.\<close>

definition gc_inv :: "clause list \<Rightarrow> cref list \<Rightarrow> cref list \<Rightarrow> solver \<times> clause list \<Rightarrow> bool" where
  "gc_inv old0 ls cs st \<longleftrightarrow>
     reloc_inv old0 (ca (fst st)) (snd st) \<and> learnts (fst st) = ls \<and> clauses (fst st) = cs"

text \<open>A learned clause with a given activity, stored and attached as \<^verbatim>\<open>search\<close> does;
  and a database of four learned clauses over six variables: a long one of activity 1, a
  binary one, a long one of activity 2 that is the reason of variable 4, and a long one
  of activity 3.\<close>

definition add_learnt :: "lit list \<Rightarrow> real \<Rightarrow> solver \<Rightarrow> solver" where
  "add_learnt ps a s =
     (case alloc ps True s of
        (cr, s1) \<Rightarrow> set_cl_activity cr a (attachClause cr (s1\<lparr>learnts := learnts s1 @ [cr]\<rparr>)))"

definition learnt_db :: solver where
  "learnt_db =
     uncheckedEnqueue (mkLit 3 False) (Some 2)
       (uncheckedEnqueue (mkLit 5 False) None
          (newDecisionLevel
             (uncheckedEnqueue (mkLit 4 False) None
                (newDecisionLevel
                   (add_learnt [mkLit 1 False, mkLit 2 False, mkLit 3 False] 3
                      (add_learnt [mkLit 3 False, mkLit 4 True, mkLit 5 True] 2
                         (add_learnt [mkLit 0 False, mkLit 1 False] 0
                            (add_learnt [mkLit 0 False, mkLit 1 False, mkLit 2 False] 1
                               (new_vars 6 init_solver)))))))))"

text \<open>An environment that always collects garbage.\<close>

definition env_gc :: env where
  "env_gc = \<lparr>drand = (\<lambda>sd. (0, sd)), need_gc = (\<lambda>f c. True)\<rparr>"

section \<open>Well-formed conflicts\<close>






definition analyze_frame :: "solver \<Rightarrow> solver \<Rightarrow> bool" where
  "analyze_frame s t \<longleftrightarrow>
     trail t = trail s \<and> vardata t = vardata s \<and> trail_lim t = trail_lim s \<and>
     length (seen t) = length (seen s) \<and> opt t = opt s \<and>
     (\<forall>x. lits (ca t ! x) = lits (ca s ! x))"





section \<open>Adding a satisfied or tautological clause\<close>

lemma toInt_inj: "toInt p = toInt q \<Longrightarrow> p = q"
  by (cases p; cases q) (auto simp: toInt_def split: if_splits; presburger)

lemma value_lit_neg:
  "value_lit s (neg l) =
     (case value_lit s l of l_True \<Rightarrow> l_False | l_False \<Rightarrow> l_True | l_Undef \<Rightarrow> l_Undef)"
  by (cases l) (auto simp: value_lit_def neg_def lxor_def split: lbool.splits)

lemma neg_neg: "neg (neg l) = l"
  by (cases l) (simp add: neg_def)

lemma neg_neq: "neg l \<noteq> l"
  by (cases l) (simp add: neg_def)

lemma toInt_neg: "toInt (neg l) = (if sign l then toInt l - 1 else toInt l + 1)"
  by (cases l) (simp add: neg_def toInt_def)

lemma scan_true: "\<exists>l\<in>set qs. value_lit s l = l_True \<Longrightarrow> addClause_scan s qs p out = None"
  by (induction qs arbitrary: p out) auto

text \<open>Once a positive literal is the last one kept, its complement further on in the
  sorted clause ends the scan: only copies of the literal itself can come in between.\<close>

lemma scan_pending:
  "sorted (map toInt qs) \<Longrightarrow> neg l \<in> set qs \<Longrightarrow> \<not> sign l \<Longrightarrow> \<forall>q\<in>set qs. toInt l \<le> toInt q
   \<Longrightarrow> addClause_scan s qs (Some l) out = None"
proof (induction qs arbitrary: out)
  case Nil
  then show ?case by simp
next
  case (Cons q qs)
  show ?case
  proof (cases "q = neg l")
    case True
    then show ?thesis by simp
  next
    case qn: False
    then have in_rest: "neg l \<in> set qs" using Cons.prems(2) by auto
    have "toInt q \<le> toInt (neg l)" using Cons.prems(1) in_rest by auto
    moreover have "toInt l \<le> toInt q" using Cons.prems(4) by simp
    ultimately have "toInt q = toInt l \<or> toInt q = toInt (neg l)"
      using Cons.prems(3) by (auto simp: toInt_neg)
    then have ql: "q = l" using qn by (auto dest: toInt_inj)
    have IH: "addClause_scan s qs (Some l) out' = None" for out'
      using Cons.IH [of out'] Cons.prems in_rest by auto
    show ?thesis using ql IH by (auto simp: neg_neq)
  qed
qed

lemma scan_taut_pos:
  "sorted (map toInt qs) \<Longrightarrow> l \<in> set qs \<Longrightarrow> neg l \<in> set qs \<Longrightarrow> \<not> sign l
   \<Longrightarrow> addClause_scan s qs p out = None"
proof (induction qs arbitrary: p out)
  case Nil
  then show ?case by simp
next
  case (Cons q qs)
  have srt: "sorted (map toInt qs)" and le: "\<forall>x\<in>set qs. toInt q \<le> toInt x"
    using Cons.prems(1) by auto
  show ?case
  proof (cases "q = l")
    case True
    have nl: "neg l \<in> set qs" using Cons.prems(3) True by (auto simp: neg_neq)
    show ?thesis
    proof (cases "value_lit s l")
      case l_True
      then show ?thesis using True by simp
    next
      case l_False
      then have "value_lit s (neg l) = l_True" by (simp add: value_lit_neg)
      then have "addClause_scan s qs p' out' = None" for p' out'
        using nl scan_true [of qs s] by blast
      then show ?thesis by simp
    next
      case l_Undef
      have "addClause_scan s qs (Some l) out' = None" for out'
        using scan_pending [OF srt nl Cons.prems(4)] le True by blast
      then show ?thesis using True l_Undef by auto
    qed
  next
    case False
    then have lin: "l \<in> set qs" using Cons.prems(2) by auto
    have "q \<noteq> neg l"
    proof
      assume "q = neg l"
      then have "toInt (neg l) \<le> toInt l" using le lin by auto
      then show False using Cons.prems(4) by (simp add: toInt_neg)
    qed
    then have "neg l \<in> set qs" using Cons.prems(3) by auto
    then have "addClause_scan s qs p' out' = None" for p' out'
      using Cons.IH [OF srt lin _ Cons.prems(4)] by blast
    then show ?thesis by simp
  qed
qed

lemma scan_taut:
  assumes "sorted (map toInt qs)" "l \<in> set qs" "neg l \<in> set qs"
  shows "addClause_scan s qs p out = None"
proof (cases "sign l")
  case False
  then show ?thesis using scan_taut_pos assms by blast
next
  case True
  then have "\<not> sign (neg l)" by (cases l) (simp add: neg_def)
  then show ?thesis using scan_taut_pos [of qs "neg l"] assms by (simp add: neg_neg)
qed

lemma scan_sat_or_taut:
  assumes "(\<exists>l\<in>set ps. value_lit s l = l_True) \<or> (\<exists>l\<in>set ps. neg l \<in> set ps)"
  shows "addClause_scan s (sort_lits ps) None [] = None"
proof -
  have srt: "sorted (map toInt (sort_lits ps))" and st: "set (sort_lits ps) = set ps"
    by (simp_all add: sort_lits_def)
  from assms show ?thesis
  proof
    assume "\<exists>l\<in>set ps. value_lit s l = l_True"
    then show ?thesis using scan_true [of "sort_lits ps" s] st by simp
  next
    assume "\<exists>l\<in>set ps. neg l \<in> set ps"
    then obtain l where "l \<in> set ps" "neg l \<in> set ps" by blast
    then show ?thesis using scan_taut [OF srt, of l] st by simp
  qed
qed

text \<open>C10, as stated, fails on a solver whose \<open>ok\<close> flag is already false: the guard at the
  top of \<^verbatim>\<open>addClause_\<close> returns false before the clause is looked at.  Here the
  contradictory solver is at decision level 0, the literal \<open>1\<close> is assigned true, and adding
  the clause \<open>(1)\<close> returns false.\<close>

theorem addClause_satisfied_not_ok_counterexample:
  "decisionLevel contradictory = 0 \<and>
   value_lit contradictory (mkLit 0 False) = l_True \<and>
   map_option fst (addClause' [mkLit 0 False] contradictory) = Some False"
  by code_simp

text \<open>C10 (amended): on a solver whose \<open>ok\<close> flag is true, \<^verbatim>\<open>addClause_\<close> called with a
  clause that contains a literal assigned true, or a literal together with its complement,
  returns true and changes nothing but the flag \<^verbatim>\<open>addClause_SingleLitReturned\<close>, which it
  clears: the arena, the clause lists, the watch lists and the trail are those of before.
  The assertion on the decision level is not needed for this.\<close>

theorem addClause_satisfied_or_tautology:
  assumes "ok s"
    and "(\<exists>l\<in>set ps. value_lit s l = l_True) \<or> (\<exists>l\<in>set ps. neg l \<in> set ps)"
  shows "addClause' ps s = Some (True, s\<lparr>addClause_SingleLitReturned := False\<rparr>)"
proof -
  let ?s = "s\<lparr>addClause_SingleLitReturned := False\<rparr>"
  have v: "value_lit ?s = value_lit s" by (rule ext) (simp add: value_lit_def)
  have "addClause_scan ?s (sort_lits ps) None [] = None"
    using scan_sat_or_taut [of ps ?s] assms(2) v by simp
  then show ?thesis using assms(1) by (simp add: addClause'_def Let_def)
qed

theorem addClause_satisfied_or_tautology_witness:
  "ok unit_solver \<and> value_lit unit_solver (mkLit 0 False) = l_True \<and>
   addClause' [mkLit 0 False, mkLit 0 True] unit_solver
     = Some (True, unit_solver\<lparr>addClause_SingleLitReturned := False\<rparr>)"
proof -
  have h1: "ok unit_solver" by code_simp
  have h2: "value_lit unit_solver (mkLit 0 False) = l_True" by code_simp
  have h3: "(\<exists>l\<in>set [mkLit 0 False, mkLit 0 True]. value_lit unit_solver l = l_True) \<or>
            (\<exists>l\<in>set [mkLit 0 False, mkLit 0 True]. neg l \<in> set [mkLit 0 False, mkLit 0 True])"
    using h2 by simp
  show ?thesis using h1 h2 addClause_satisfied_or_tautology [OF h1 h3] by simp
qed

section \<open>A recorded contradiction is permanent\<close>

lemma solve_not_ok: "\<not> ok s \<Longrightarrow> solve' E s = Some (l_False, s\<lparr>model := [], conflict := []\<rparr>)"
  by (simp add: solve'_def Let_def)

lemma addClause_not_ok:
  "\<not> ok s \<Longrightarrow> addClause' ps s = Some (False, s\<lparr>addClause_SingleLitReturned := False\<rparr>)"
  by (simp add: addClause'_def Let_def)

lemma ok_insertVarOrder: "ok (insertVarOrder x s) = ok s"
  by (simp add: insertVarOrder_def heap_insert_def)

lemma ok_newVar: "ok (snd (newVar E upol dvar s)) = ok s"
  by (simp add: newVar_def setDecisionVar_def Let_def ok_insertVarOrder split: prod.splits)

lemma api_step_not_ok:
  assumes "\<not> ok s"
  shows "\<exists>r s'. api_step E c s = Some (r, s') \<and> \<not> ok s' \<and> refused c r"
proof (cases c)
  case (Call_newVar upol dvar)
  then show ?thesis using assms ok_newVar [of E upol dvar s]
    by (cases "newVar E upol dvar s") auto
next
  case (Call_addClause ps)
  then show ?thesis using assms by (simp add: addClause_not_ok)
next
  case (Call_solve assumps)
  then show ?thesis using assms by (simp add: solve_not_ok)
qed

lemma api_run_not_ok:
  "\<not> ok s \<Longrightarrow> \<exists>rs s'. api_run E cs s = Some (rs, s') \<and> \<not> ok s' \<and> list_all2 refused cs rs"
proof (induction cs arbitrary: s)
  case Nil
  then show ?case by simp
next
  case (Cons c cs)
  from api_step_not_ok [OF Cons.prems, of E c]
  obtain r s1 where st: "api_step E c s = Some (r, s1)" "\<not> ok s1" "refused c r" by blast
  from Cons.IH [OF st(2)]
  obtain rs s2 where rn: "api_run E cs s1 = Some (rs, s2)" "\<not> ok s2" "list_all2 refused cs rs"
    by blast
  show ?case using st rn by simp
qed

lemma addClause_false_not_ok: "addClause' ps s = Some (False, s') \<Longrightarrow> \<not> ok s'"
  by (auto simp: addClause'_def Let_def alloc_def
      split: if_splits option.splits list.splits prod.splits)

text \<open>C3: whenever \<^verbatim>\<open>addClause_\<close> returns false (the clause became empty, or the
  propagation of its unit conflicted, or the flag was false already) the \<open>ok\<close> flag is
  false afterwards.  On a solver whose \<open>ok\<close> flag is false, \<^verbatim>\<open>solve_\<close> returns
  \<^verbatim>\<open>l_False\<close> at once: the state it returns is the one it was given with \<open>model\<close> and
  \<open>conflict\<close> cleared, so no search has run; \<^verbatim>\<open>addClause_\<close> returns false and only
  clears its single-literal flag; and after any sequence of calls the flag is still false,
  every clause was refused and every solve answered \<^verbatim>\<open>l_False\<close>.  On one variable,
  adding \<open>(1)\<close> returns true and adding \<open>(\<not>1)\<close> then returns false, at decision level 0
  and before any search has started.\<close>

theorem contradiction_is_permanent:
  "(\<forall>ps s s'. addClause' ps s = Some (False, s') \<longrightarrow> \<not> ok s') \<and>
   (\<forall>E s. \<not> ok s \<longrightarrow> solve' E s = Some (l_False, s\<lparr>model := [], conflict := []\<rparr>)) \<and>
   (\<forall>ps s. \<not> ok s \<longrightarrow>
      addClause' ps s = Some (False, s\<lparr>addClause_SingleLitReturned := False\<rparr>)) \<and>
   (\<forall>E cs s. \<not> ok s \<longrightarrow>
      (\<exists>rs s'. api_run E cs s = Some (rs, s') \<and> \<not> ok s' \<and> list_all2 refused cs rs)) \<and>
   map_option fst (addClause' [mkLit 0 False] (new_vars 1 init_solver)) = Some True \<and>
   ok unit_solver \<and>
   map_option fst (addClause' [mkLit 0 True] unit_solver) = Some False \<and>
   decisionLevel contradictory = 0 \<and> \<not> ok contradictory \<and> starts (stat contradictory) = 0"
proof -
  have c: "map_option fst (addClause' [mkLit 0 False] (new_vars 1 init_solver)) = Some True \<and>
      ok unit_solver \<and>
      map_option fst (addClause' [mkLit 0 True] unit_solver) = Some False \<and>
      decisionLevel contradictory = 0 \<and> \<not> ok contradictory \<and> starts (stat contradictory) = 0"
    by code_simp
  show ?thesis
    using c addClause_false_not_ok solve_not_ok addClause_not_ok api_run_not_ok by blast
qed

theorem contradiction_is_permanent_witness:
  "\<not> ok contradictory \<and>
   (\<exists>s'. api_run env0 [Call_solve [], Call_addClause [mkLit 0 False], Call_solve []] contradictory
           = Some ([Res_lbool l_False, Res_bool False, Res_lbool l_False], s') \<and> \<not> ok s')"
proof -
  have h: "\<not> ok contradictory" by code_simp
  from contradiction_is_permanent h
  obtain rs s' where r:
    "api_run env0 [Call_solve [], Call_addClause [mkLit 0 False], Call_solve []] contradictory
       = Some (rs, s')"
    "\<not> ok s'"
    "list_all2 refused [Call_solve [], Call_addClause [mkLit 0 False], Call_solve []] rs"
    by blast
  from r(3) have "rs = [Res_lbool l_False, Res_bool False, Res_lbool l_False]"
    by (auto simp: list_all2_Cons1)
  then show ?thesis using h r by blast
qed

section \<open>Unit propagation: conflicts and the queue\<close>

lemma propagate_ws_append:
  "propagate_ws p (xs @ ys) kept s =
     (case propagate_ws p xs kept s of
        (Some c, k, t) \<Rightarrow> (Some c, k @ ys, t)
      | (None, k, t) \<Rightarrow> propagate_ws p ys k t)"
proof (induction xs arbitrary: kept s)
  case Nil
  then show ?case by simp
next
  case (Cons w ws)
  show ?case
    by (simp add: Cons.IH Let_def split: option.splits prod.splits)
qed

lemma first_index_None: "first_index P xs k = None \<longleftrightarrow> (\<forall>x\<in>set xs. \<not> P x)"
  by (induction xs arbitrary: k) auto

lemma set_lits_simps [simp]:
  "trail (set_lits cr c s) = trail s" "qhead (set_lits cr c s) = qhead s"
  "assigns (set_lits cr c s) = assigns s" "vardata (set_lits cr c s) = vardata s"
  "trail_lim (set_lits cr c s) = trail_lim s" "watches (set_lits cr c s) = watches s"
  "dirties (set_lits cr c s) = dirties s" "stat (set_lits cr c s) = stat s"
  "simpDB_props (set_lits cr c s) = simpDB_props s"
  "value_lit (set_lits cr c s) = value_lit s" "decisionLevel (set_lits cr c s) = decisionLevel s"
  "watch_list (set_lits cr c s) = watch_list s"
  by (simp_all add: set_lits_def value_lit_def decisionLevel_def watch_list_def fun_eq_iff)

lemma set_watch_list_simps [simp]:
  "trail (set_watch_list q ws s) = trail s" "qhead (set_watch_list q ws s) = qhead s"
  "assigns (set_watch_list q ws s) = assigns s" "vardata (set_watch_list q ws s) = vardata s"
  "trail_lim (set_watch_list q ws s) = trail_lim s" "ca (set_watch_list q ws s) = ca s"
  "dirties (set_watch_list q ws s) = dirties s" "stat (set_watch_list q ws s) = stat s"
  "simpDB_props (set_watch_list q ws s) = simpDB_props s"
  "value_lit (set_watch_list q ws s) = value_lit s"
  "decisionLevel (set_watch_list q ws s) = decisionLevel s"
  "length (watches (set_watch_list q ws s)) = length (watches s)"
  by (simp_all add: set_watch_list_def value_lit_def decisionLevel_def fun_eq_iff)

lemma watch_list_set_watch_list:
  "watch_list (set_watch_list q ws s) p =
     (if toInt p = toInt q \<and> toInt q < length (watches s) then ws else watch_list s p)"
  by (auto simp: watch_list_def set_watch_list_def nth_list_update list_update_beyond)

lemma push_watch_simps [simp]:
  "trail (push_watch q w s) = trail s" "qhead (push_watch q w s) = qhead s"
  "assigns (push_watch q w s) = assigns s" "vardata (push_watch q w s) = vardata s"
  "trail_lim (push_watch q w s) = trail_lim s" "ca (push_watch q w s) = ca s"
  "dirties (push_watch q w s) = dirties s" "stat (push_watch q w s) = stat s"
  "simpDB_props (push_watch q w s) = simpDB_props s"
  "value_lit (push_watch q w s) = value_lit s"
  "decisionLevel (push_watch q w s) = decisionLevel s"
  "length (watches (push_watch q w s)) = length (watches s)"
  by (simp_all add: push_watch_def)

lemma uncheckedEnqueue_simps [simp]:
  "trail (uncheckedEnqueue q r s) = trail s @ [q]" "qhead (uncheckedEnqueue q r s) = qhead s"
  "trail_lim (uncheckedEnqueue q r s) = trail_lim s" "ca (uncheckedEnqueue q r s) = ca s"
  "watches (uncheckedEnqueue q r s) = watches s" "dirties (uncheckedEnqueue q r s) = dirties s"
  "stat (uncheckedEnqueue q r s) = stat s"
  "simpDB_props (uncheckedEnqueue q r s) = simpDB_props s"
  "decisionLevel (uncheckedEnqueue q r s) = decisionLevel s"
  "watch_list (uncheckedEnqueue q r s) = watch_list s"
  by (simp_all add: uncheckedEnqueue_def decisionLevel_def watch_list_def fun_eq_iff)

lemma propagate_ws_conflict:
  assumes "value_lit s (blocker w) \<noteq> l_True"
    and "\<forall>l\<in>set (drop 2 (watched_first p w s)). value_lit s l = l_False"
    and "value_lit s (watched_first p w s ! 0) = l_False"
  shows "propagate_ws p (w # ws) kept s =
           (Some (cref w), kept @ [Watcher (cref w) (watched_first p w s ! 0)] @ ws,
            (set_lits (cref w) (watched_first p w s) s)\<lparr>qhead := length (trail s)\<rparr>)"
proof -
  have "first_index (\<lambda>l. value_lit s l \<noteq> l_False) (drop 2 (watched_first p w s)) 2 = None"
    using assms(2) by (simp add: first_index_None)
  then show ?thesis using assms(1,3)
    by (simp add: Let_def)
qed

lemma propagate_ws_length_watches:
  "propagate_ws p ws kept s = (c, k, t) \<Longrightarrow> length (watches t) = length (watches s)"
proof (induction ws arbitrary: kept s)
  case Nil
  then show ?case by simp
next
  case (Cons w ws)
  show ?case
    using Cons.prems
    by (auto simp: Let_def split: if_splits option.splits dest!: Cons.IH)
qed

lemma propagate_loop_drained_aux:
  assumes "propagate_loop confl n s = Some y"
  shows "\<not> qhead (snd (snd y)) < length (trail (snd (snd y)))"
proof (rule propagate_loop.raw_induct
    [where P = "\<lambda>c k t r. \<not> qhead (snd (snd r)) < length (trail (snd (snd r)))", OF _ assms])
  fix f :: "cref option \<Rightarrow> nat \<Rightarrow> solver \<Rightarrow> (cref option \<times> nat \<times> solver) option"
    and c k t r
  assume IH: "\<And>c k t r. f c k t = Some r \<Longrightarrow> \<not> qhead (snd (snd r)) < length (trail (snd (snd r)))"
    and body: "(if qhead t < length (trail t)
                then case propagate_lit t of
                       (c', t') \<Rightarrow> f (case c' of None \<Rightarrow> c | Some cr \<Rightarrow> Some cr) (k + 1) t'
                else Some (c, k, t)) = Some r"
  show "\<not> qhead (snd (snd r)) < length (trail (snd (snd r)))"
    using body IH by (auto split: if_splits prod.splits)
qed

lemma propagate_drained:
  "propagate s = Some (confl, s') \<Longrightarrow> \<not> qhead s' < length (trail s')"
  using propagate_loop_drained_aux [of None 0 s]
  by (auto simp: propagate_def split: option.splits)

text \<open>The queue head never passes the end of the trail.\<close>

lemma propagate_ws_qhead:
  "propagate_ws p ws kept s = (c, k, t) \<Longrightarrow> qhead s \<le> length (trail s)
   \<Longrightarrow> qhead t \<le> length (trail t)"
proof (induction ws arbitrary: kept s)
  case Nil
  then show ?case by simp
next
  case (Cons w ws)
  show ?case
    using Cons.prems
    by (auto simp: Let_def split: if_splits option.splits dest!: Cons.IH)
qed

lemma lookup_simps [simp]:
  "trail (lookup p s) = trail s" "qhead (lookup p s) = qhead s"
  "length (watches (lookup p s)) = length (watches s)"
  by (simp_all add: lookup_def clean_def)

lemma propagate_lit_qhead:
  "propagate_lit s = (c, t) \<Longrightarrow> qhead s < length (trail s) \<Longrightarrow> qhead t \<le> length (trail t)"
  by (auto simp: propagate_lit_def Let_def split: prod.splits dest!: propagate_ws_qhead)

lemma propagate_loop_qhead_aux:
  assumes "propagate_loop confl n s = Some y"
  shows "qhead s \<le> length (trail s) \<longrightarrow> qhead (snd (snd y)) \<le> length (trail (snd (snd y)))"
proof (rule propagate_loop.raw_induct
    [where P = "\<lambda>c k t r. qhead t \<le> length (trail t)
                  \<longrightarrow> qhead (snd (snd r)) \<le> length (trail (snd (snd r)))", OF _ assms])
  fix f :: "cref option \<Rightarrow> nat \<Rightarrow> solver \<Rightarrow> (cref option \<times> nat \<times> solver) option"
    and c k t r
  assume IH: "\<And>c k t r. f c k t = Some r \<Longrightarrow> qhead t \<le> length (trail t)
                  \<longrightarrow> qhead (snd (snd r)) \<le> length (trail (snd (snd r)))"
    and body: "(if qhead t < length (trail t)
                then case propagate_lit t of
                       (c', t') \<Rightarrow> f (case c' of None \<Rightarrow> c | Some cr \<Rightarrow> Some cr) (k + 1) t'
                else Some (c, k, t)) = Some r"
  show "qhead t \<le> length (trail t) \<longrightarrow> qhead (snd (snd r)) \<le> length (trail (snd (snd r)))"
  proof (cases "qhead t < length (trail t)")
    case True
    obtain c' t' where pl: "propagate_lit t = (c', t')" by (cases "propagate_lit t")
    have "qhead t' \<le> length (trail t')" using propagate_lit_qhead [OF pl True] .
    moreover have "f (case c' of None \<Rightarrow> c | Some cr \<Rightarrow> Some cr) (k + 1) t' = Some r"
      using body True pl by simp
    ultimately show ?thesis using IH by blast
  next
    case False
    then show ?thesis using body by auto
  qed
qed

lemma propagate_qhead:
  "propagate s = Some (confl, s') \<Longrightarrow> qhead s \<le> length (trail s) \<Longrightarrow> qhead s' = length (trail s')"
  using propagate_loop_drained_aux [of None 0 s] propagate_loop_qhead_aux [of None 0 s]
  by (auto simp: propagate_def split: option.splits)

text \<open>Rounds without a conflict are rounds of the loop, and a return without a conflict
  is made of such rounds only.\<close>

lemma propagate_rounds_loop:
  "propagate_rounds k s = Some t \<Longrightarrow> propagate_loop c n s = propagate_loop c (n + k) t"
proof (induction k arbitrary: s n)
  case 0
  then show ?case by simp
next
  case (Suc k)
  from Suc.prems have q: "qhead s < length (trail s)" by (simp split: if_splits)
  obtain c' s' where pl: "propagate_lit s = (c', s')" by (cases "propagate_lit s")
  from Suc.prems q pl have c': "c' = None" and r: "propagate_rounds k s' = Some t"
    by (auto split: option.splits)
  have "propagate_loop c n s = propagate_loop c (n + 1) s'"
    using q pl c' by (subst propagate_loop.simps) simp
  also have "\<dots> = propagate_loop c (n + 1 + k) t" using Suc.IH [OF r] .
  finally show ?case by simp
qed

lemma propagate_ws_None_qhead:
  "propagate_ws p ws kept s = (None, k, t) \<Longrightarrow> qhead t = qhead s"
proof (induction ws arbitrary: kept s)
  case Nil
  then show ?case by simp
next
  case (Cons w ws)
  show ?case
    using Cons.prems
    by (auto simp: Let_def split: if_splits option.splits dest!: Cons.IH)
qed

lemma propagate_lit_None_qhead:
  "propagate_lit s = (None, t) \<Longrightarrow> qhead t = qhead s + 1"
  by (auto simp: propagate_lit_def Let_def split: prod.splits dest!: propagate_ws_None_qhead)

lemma propagate_rounds_qhead:
  "propagate_rounds k s = Some t \<Longrightarrow> qhead t = qhead s + k"
proof (induction k arbitrary: s)
  case 0
  then show ?case by simp
next
  case (Suc k)
  obtain c' s' where pl: "propagate_lit s = (c', s')" by (cases "propagate_lit s")
  from Suc.prems pl have c': "c' = None" and r: "propagate_rounds k s' = Some t"
    by (auto split: option.splits if_splits)
  show ?case using Suc.IH [OF r] propagate_lit_None_qhead [of s s'] pl c' by simp
qed

lemma propagate_loop_rounds_aux:
  assumes "propagate_loop confl n s = Some y"
  shows "fst y = None \<longrightarrow>
           confl = None \<and> n \<le> fst (snd y) \<and> propagate_rounds (fst (snd y) - n) s = Some (snd (snd y))"
proof (rule propagate_loop.raw_induct
    [where P = "\<lambda>c k t r. fst r = None \<longrightarrow>
                  c = None \<and> k \<le> fst (snd r) \<and> propagate_rounds (fst (snd r) - k) t = Some (snd (snd r))",
     OF _ assms])
  fix f :: "cref option \<Rightarrow> nat \<Rightarrow> solver \<Rightarrow> (cref option \<times> nat \<times> solver) option"
    and c k t r
  assume IH: "\<And>c k t r. f c k t = Some r \<Longrightarrow> fst r = None \<longrightarrow>
                  c = None \<and> k \<le> fst (snd r) \<and> propagate_rounds (fst (snd r) - k) t = Some (snd (snd r))"
    and body: "(if qhead t < length (trail t)
                then case propagate_lit t of
                       (c', t') \<Rightarrow> f (case c' of None \<Rightarrow> c | Some cr \<Rightarrow> Some cr) (k + 1) t'
                else Some (c, k, t)) = Some r"
  show "fst r = None \<longrightarrow>
          c = None \<and> k \<le> fst (snd r) \<and> propagate_rounds (fst (snd r) - k) t = Some (snd (snd r))"
  proof (cases "qhead t < length (trail t)")
    case True
    obtain c' t' where pl: "propagate_lit t = (c', t')" by (cases "propagate_lit t")
    have fr: "f (case c' of None \<Rightarrow> c | Some cr \<Rightarrow> Some cr) (k + 1) t' = Some r"
      using body True pl by simp
    show ?thesis
    proof
      assume n: "fst r = None"
      from IH [OF fr] n
      have a: "(case c' of None \<Rightarrow> c | Some cr \<Rightarrow> Some cr) = None"
        and b: "k + 1 \<le> fst (snd r)"
        and d: "propagate_rounds (fst (snd r) - (k + 1)) t' = Some (snd (snd r))"
        by simp_all
      from a have c': "c' = None" and c: "c = None" by (auto split: option.splits)
      from b have e: "fst (snd r) - k = Suc (fst (snd r) - (k + 1))" by simp
      show "c = None \<and> k \<le> fst (snd r) \<and> propagate_rounds (fst (snd r) - k) t = Some (snd (snd r))"
        using c b d True pl c' unfolding e by simp
    qed
  next
    case False
    then show ?thesis using body by auto
  qed
qed

lemma propagate_none_rounds:
  assumes "propagate s = Some (None, s')"
  shows "\<exists>k t. propagate_rounds k s = Some t \<and> qhead t = qhead s + k \<and>
               \<not> qhead t < length (trail t) \<and> trail s' = trail t \<and> qhead s' = qhead t"
proof -
  from assms obtain m t where lp: "propagate_loop None 0 s = Some (None, m, t)"
    and s': "s' = t\<lparr>stat := (stat t)\<lparr>propagations := propagations (stat t) + m\<rparr>,
                     simpDB_props := simpDB_props t - int m\<rparr>"
    by (auto simp: propagate_def split: option.splits)
  from propagate_loop_rounds_aux [OF lp] have r: "propagate_rounds m s = Some t" by simp
  have "\<not> qhead t < length (trail t)" using propagate_loop_drained_aux [OF lp] by simp
  then have "propagate_rounds m s = Some t \<and> qhead t = qhead s + m \<and>
               \<not> qhead t < length (trail t) \<and> trail s' = trail t \<and> qhead s' = qhead t"
    using r propagate_rounds_qhead [OF r] s' by simp
  then show ?thesis by blast
qed

text \<open>A conflict met in the watch list of the literal taken from the queue, in any round
  of the loop.\<close>

lemma propagate_loop_conflict:
  assumes q: "qhead s < length (trail s)"
    and p: "p = trail s ! qhead s"
    and rng: "toInt p < length (watches s)"
    and s0: "s0 = lookup p (s\<lparr>qhead := qhead s + 1\<rparr>)"
    and ws: "watch_list s0 p = pre @ w # post"
    and pre: "propagate_ws p pre [] s0 = (None, kept, s1)"
    and blk: "value_lit s1 (blocker w) \<noteq> l_True"
    and rest: "\<forall>l\<in>set (drop 2 (watched_first p w s1)). value_lit s1 l = l_False"
    and first: "value_lit s1 (watched_first p w s1 ! 0) = l_False"
  shows "\<exists>s'. propagate_loop c n s = Some (Some (cref w), n + 1, s') \<and>
               watch_list s' p = kept @ [Watcher (cref w) (watched_first p w s1 ! 0)] @ post \<and>
               trail s' = trail s1 \<and> qhead s' = length (trail s') \<and> stat s' = stat s1 \<and>
               assigns s' = assigns s1"
proof -
  let ?w' = "Watcher (cref w) (watched_first p w s1 ! 0)"
  let ?s2 = "(set_lits (cref w) (watched_first p w s1) s1)\<lparr>qhead := length (trail s1)\<rparr>"
  have all: "propagate_ws p (pre @ w # post) [] s0 = (Some (cref w), kept @ [?w'] @ post, ?s2)"
    using pre propagate_ws_conflict [OF blk rest first, of post kept]
    by (simp add: propagate_ws_append)
  have len: "length (watches s1) = length (watches s)"
    using propagate_ws_length_watches [OF pre] s0 by simp
  let ?s3 = "set_watch_list p (kept @ [?w'] @ post) ?s2"
  have lit: "propagate_lit s = (Some (cref w), ?s3)"
    using all ws s0 p by (simp add: propagate_lit_def Let_def)
  have fin: "\<not> qhead ?s3 < length (trail ?s3)" by simp
  have loop: "propagate_loop c n s = Some (Some (cref w), n + 1, ?s3)"
    using q lit fin
    by (subst propagate_loop.simps, simp, subst propagate_loop.simps, simp)
  have wl: "watch_list ?s3 p = kept @ [?w'] @ post"
    using rng len by (simp add: watch_list_set_watch_list watch_list_def set_watch_list_def)
  show ?thesis
    using loop wl by simp
qed

lemma propagate_conflict:
  assumes k: "propagate_rounds k s = Some t"
    and q: "qhead t < length (trail t)"
    and p: "p = trail t ! qhead t"
    and rng: "toInt p < length (watches t)"
    and s0: "t0 = lookup p (t\<lparr>qhead := qhead t + 1\<rparr>)"
    and ws: "watch_list t0 p = pre @ w # post"
    and pre: "propagate_ws p pre [] t0 = (None, kept, t1)"
    and blk: "value_lit t1 (blocker w) \<noteq> l_True"
    and rest: "\<forall>l\<in>set (drop 2 (watched_first p w t1)). value_lit t1 l = l_False"
    and first: "value_lit t1 (watched_first p w t1 ! 0) = l_False"
  shows "\<exists>s'. propagate s = Some (Some (cref w), s') \<and>
               watch_list s' p = kept @ [Watcher (cref w) (watched_first p w t1 ! 0)] @ post \<and>
               trail s' = trail t1 \<and> assigns s' = assigns t1 \<and> qhead s' = length (trail s') \<and>
               propagations (stat s') = propagations (stat t1) + (k + 1)"
proof -
  from propagate_loop_conflict [OF q p rng s0 ws pre blk rest first, of None k]
  obtain s3 where lp: "propagate_loop None k t = Some (Some (cref w), k + 1, s3)"
    and wl: "watch_list s3 p = kept @ [Watcher (cref w) (watched_first p w t1 ! 0)] @ post"
    and fr: "trail s3 = trail t1" "qhead s3 = length (trail s3)" "stat s3 = stat t1"
            "assigns s3 = assigns t1"
    by blast
  have "propagate_loop None 0 s = Some (Some (cref w), k + 1, s3)"
    using propagate_rounds_loop [OF k, of None 0] lp by simp
  then show ?thesis using wl fr by (simp add: propagate_def watch_list_def)
qed


text \<open>C4: let \<open>t\<close> be any state of the loop of \<^verbatim>\<open>propagate\<close>, reached from the entry
  state \<open>s\<close> after \<open>k\<close> rounds without a conflict, let \<open>p\<close> be the literal it takes from the
  queue and \<open>w\<close> a watcher in the watch list of \<open>p\<close>, the watchers \<open>pre\<close> before it having
  been processed without conflict (leaving the watchers \<open>kept\<close> and the state \<open>t1\<close>).  If
  the blocker of \<open>w\<close> is not true, every literal of its clause from index 2 on is false
  and, the false literal moved to index 1, its first literal is false too, then
  \<^verbatim>\<open>propagate\<close> returns this clause as the conflict; nothing more is enqueued or
  assigned; the call has counted \<open>k + 1\<close> propagations; and the watch list of \<open>p\<close> is the
  watchers kept, this watcher, and the unprocessed watchers \<open>post\<close> as they were.  And
  when \<^verbatim>\<open>propagate\<close> returns without a conflict, no literal of the trail is left in the
  queue: the queue head is at the end of the trail, and the call is made of one round
  without conflict for each position of the trail from the entry's queue head on.\<close>

theorem propagate_conflict_and_drain:
  "(\<forall>s k t p t0 pre w post kept t1.
      propagate_rounds k s = Some t \<and>
      qhead t < length (trail t) \<and> p = trail t ! qhead t \<and> toInt p < length (watches t) \<and>
      t0 = lookup p (t\<lparr>qhead := qhead t + 1\<rparr>) \<and> watch_list t0 p = pre @ w # post \<and>
      propagate_ws p pre [] t0 = (None, kept, t1) \<and>
      value_lit t1 (blocker w) \<noteq> l_True \<and>
      (\<forall>l\<in>set (drop 2 (watched_first p w t1)). value_lit t1 l = l_False) \<and>
      value_lit t1 (watched_first p w t1 ! 0) = l_False
      \<longrightarrow> (\<exists>s'. propagate s = Some (Some (cref w), s') \<and>
                watch_list s' p = kept @ [Watcher (cref w) (watched_first p w t1 ! 0)] @ post \<and>
                trail s' = trail t1 \<and> assigns s' = assigns t1 \<and> qhead s' = length (trail s') \<and>
                propagations (stat s') = propagations (stat t1) + (k + 1))) \<and>
   (\<forall>s s'. propagate s = Some (None, s') \<longrightarrow> \<not> qhead s' < length (trail s')) \<and>
   (\<forall>s s'. propagate s = Some (None, s') \<and> qhead s \<le> length (trail s)
      \<longrightarrow> qhead s' = length (trail s')) \<and>
   (\<forall>s s'. propagate s = Some (None, s')
      \<longrightarrow> (\<exists>k t. propagate_rounds k s = Some t \<and> qhead t = qhead s + k \<and>
                  \<not> qhead t < length (trail t) \<and> trail s' = trail t \<and> qhead s' = qhead t))"
proof (intro conjI allI impI)
  fix s :: solver and k t p t0 pre w post kept t1
  assume "propagate_rounds k s = Some t \<and>
      qhead t < length (trail t) \<and> p = trail t ! qhead t \<and> toInt p < length (watches t) \<and>
      t0 = lookup p (t\<lparr>qhead := qhead t + 1\<rparr>) \<and> watch_list t0 p = pre @ w # post \<and>
      propagate_ws p pre [] t0 = (None, kept, t1) \<and>
      value_lit t1 (blocker w) \<noteq> l_True \<and>
      (\<forall>l\<in>set (drop 2 (watched_first p w t1)). value_lit t1 l = l_False) \<and>
      value_lit t1 (watched_first p w t1 ! 0) = l_False"
  then show "\<exists>s'. propagate s = Some (Some (cref w), s') \<and>
                watch_list s' p = kept @ [Watcher (cref w) (watched_first p w t1 ! 0)] @ post \<and>
                trail s' = trail t1 \<and> assigns s' = assigns t1 \<and> qhead s' = length (trail s') \<and>
                propagations (stat s') = propagations (stat t1) + (k + 1)"
    using propagate_conflict [of k s t p t0 pre w post kept t1] by blast
next
  fix s s' :: solver
  assume "propagate s = Some (None, s')"
  then show "\<not> qhead s' < length (trail s')" by (rule propagate_drained)
next
  fix s s' :: solver
  assume "propagate s = Some (None, s') \<and> qhead s \<le> length (trail s)"
  then show "qhead s' = length (trail s')" using propagate_qhead by blast
next
  fix s s' :: solver
  assume "propagate s = Some (None, s')"
  then show "\<exists>k t. propagate_rounds k s = Some t \<and> qhead t = qhead s + k \<and>
                  \<not> qhead t < length (trail t) \<and> trail s' = trail t \<and> qhead s' = qhead t"
    by (rule propagate_none_rounds)
qed

theorem propagate_conflict_and_drain_witness:
  "(\<exists>s'. propagate chained_conflict = Some (Some 2, s') \<and>
         watch_list s' (mkLit 1 False)
           = [Watcher 1 (mkLit 2 False), Watcher 2 (mkLit 2 True), Watcher 3 (mkLit 0 False)] \<and>
         trail s' = [mkLit 0 False, mkLit 1 False, mkLit 2 False] \<and>
         qhead s' = 3 \<and> propagations (stat s') = 2) \<and>
   (\<exists>s' t. propagate chained_units = Some (None, s') \<and>
         propagate_rounds 3 chained_units = Some t \<and> trail s' = trail t \<and> qhead s' = 3 \<and>
         trail s' = [mkLit 0 False, mkLit 1 False, mkLit 2 False])"
proof -
  let ?p = "mkLit 1 False"
  let ?t = "the (propagate_rounds 1 chained_conflict)"
  let ?tb = "lookup ?p (?t\<lparr>qhead := qhead ?t + 1\<rparr>)"
  let ?pre = "[Watcher 1 (mkLit 2 False)]"
  let ?w = "Watcher 2 (mkLit 2 True)"
  let ?post = "[Watcher 3 (mkLit 0 False)]"
  let ?r = "propagate_ws ?p ?pre [] ?tb"
  let ?tc = "snd (snd ?r)"
  have h0: "propagate_rounds 1 chained_conflict \<noteq> None" by code_simp
  have h0': "propagate_rounds 1 chained_conflict = Some ?t"
    using option.collapse [OF h0] by (rule sym)
  have h1: "qhead ?t < length (trail ?t) \<and> ?p = trail ?t ! qhead ?t \<and>
            toInt ?p < length (watches ?t)"
    by code_simp
  have h2: "watch_list ?tb ?p = ?pre @ ?w # ?post" by code_simp
  have h3: "fst ?r = None \<and> fst (snd ?r) = [Watcher 1 (mkLit 2 False)]" by code_simp
  then have h3': "?r = (None, [Watcher 1 (mkLit 2 False)], ?tc)"
    by (metis prod.collapse)
  have h4: "value_lit ?tc (blocker ?w) \<noteq> l_True \<and>
            (\<forall>l\<in>set (drop 2 (watched_first ?p ?w ?tc)). value_lit ?tc l = l_False) \<and>
            value_lit ?tc (watched_first ?p ?w ?tc ! 0) = l_False \<and>
            watched_first ?p ?w ?tc ! 0 = mkLit 2 True \<and>
            trail ?tc = [mkLit 0 False, mkLit 1 False, mkLit 2 False] \<and>
            propagations (stat ?tc) = 0"
    by code_simp
  from propagate_conflict_and_drain h0' h1 h2 h3' h4
  have "\<exists>s'. propagate chained_conflict = Some (Some (cref ?w), s') \<and>
          watch_list s' ?p = [Watcher 1 (mkLit 2 False)]
             @ [Watcher (cref ?w) (watched_first ?p ?w ?tc ! 0)] @ ?post \<and>
          trail s' = trail ?tc \<and> assigns s' = assigns ?tc \<and> qhead s' = length (trail s') \<and>
          propagations (stat s') = propagations (stat ?tc) + (1 + 1)"
    by blast
  then have A: "\<exists>s'. propagate chained_conflict = Some (Some 2, s') \<and>
         watch_list s' ?p
           = [Watcher 1 (mkLit 2 False), Watcher 2 (mkLit 2 True), Watcher 3 (mkLit 0 False)] \<and>
         trail s' = [mkLit 0 False, mkLit 1 False, mkLit 2 False] \<and>
         qhead s' = 3 \<and> propagations (stat s') = 2"
    using h4 by auto
  let ?u = "the (propagate chained_units)"
  have g0: "propagate chained_units \<noteq> None \<and> fst ?u = None \<and> qhead chained_units = 0 \<and>
            trail (snd ?u) = [mkLit 0 False, mkLit 1 False, mkLit 2 False]"
    by code_simp
  then have g0': "propagate chained_units = Some (None, snd ?u)"
    by (metis option.collapse prod.collapse)
  from propagate_conflict_and_drain g0'
  obtain k t where kt: "propagate_rounds k chained_units = Some t"
      "qhead t = qhead chained_units + k" "\<not> qhead t < length (trail t)"
      "trail (snd ?u) = trail t" "qhead (snd ?u) = qhead t"
      and d: "qhead (snd ?u) = length (trail (snd ?u))"
    using g0 by (metis le0)
  have "length (trail t) = 3" using kt(4) g0 by (metis length_Cons list.size(3) numeral_3_eq_3)
  then have "k = 3" using kt d g0 by simp
  then have B: "\<exists>s' t. propagate chained_units = Some (None, s') \<and>
         propagate_rounds 3 chained_units = Some t \<and> trail s' = trail t \<and> qhead s' = 3 \<and>
         trail s' = [mkLit 0 False, mkLit 1 False, mkLit 2 False]"
    using g0' kt g0 by auto
  show ?thesis using A B by blast
qed

section \<open>Backtracking\<close>

lemma insertVarOrder_simps [simp]:
  "trail (insertVarOrder x s) = trail s" "trail_lim (insertVarOrder x s) = trail_lim s"
  "vardata (insertVarOrder x s) = vardata s" "decision (insertVarOrder x s) = decision s"
  "next_var (insertVarOrder x s) = next_var s" "assigns (insertVarOrder x s) = assigns s"
  "qhead (insertVarOrder x s) = qhead s" "ca (insertVarOrder x s) = ca s"
  "watches (insertVarOrder x s) = watches s" "clauses (insertVarOrder x s) = clauses s"
  by (simp_all add: insertVarOrder_def heap_insert_def)

lemma order_heap_insertVarOrder:
  "set (order_heap (insertVarOrder x s)) = (if decision s ! x then insert x (set (order_heap s)) else set (order_heap s))"
  by (auto simp: insertVarOrder_def heap_insert_def inHeap_def)

lemma cancel_step_simps [simp]:
  "trail (cancel_step c s) = trail s" "trail_lim (cancel_step c s) = trail_lim s"
  "vardata (cancel_step c s) = vardata s" "decision (cancel_step c s) = decision s"
  "next_var (cancel_step c s) = next_var s"
  "assigns (cancel_step c s) = (assigns s)[var (trail s ! c) := l_Undef]"
  "qhead (cancel_step c s) = qhead s" "ca (cancel_step c s) = ca s"
  "watches (cancel_step c s) = watches s" "clauses (cancel_step c s) = clauses s"
  by (simp_all add: cancel_step_def Let_def)

lemma order_heap_cancel_step:
  "set (order_heap (cancel_step c s)) =
     (if decision s ! var (trail s ! c) then insert (var (trail s ! c)) (set (order_heap s))
      else set (order_heap s))"
  by (simp add: cancel_step_def Let_def order_heap_insertVarOrder)

text \<open>What the loop of \<^verbatim>\<open>cancelUntil\<close> leaves alone, and what it does to the heap.\<close>

lemma cancel_loop_frame:
  "trail (for_each cancel_step cs s) = trail s \<and> trail_lim (for_each cancel_step cs s) = trail_lim s \<and>
   vardata (for_each cancel_step cs s) = vardata s \<and> decision (for_each cancel_step cs s) = decision s \<and>
   next_var (for_each cancel_step cs s) = next_var s \<and>
   ca (for_each cancel_step cs s) = ca s \<and> watches (for_each cancel_step cs s) = watches s \<and>
   clauses (for_each cancel_step cs s) = clauses s \<and>
   set (order_heap s) \<subseteq> set (order_heap (for_each cancel_step cs s))"
proof (induction cs arbitrary: s)
  case Nil
  then show ?case by simp
next
  case (Cons c cs)
  have "set (order_heap s) \<subseteq> set (order_heap (cancel_step c s))"
    by (auto simp: order_heap_cancel_step)
  then show ?case using Cons.IH [of "cancel_step c s"] by auto
qed

lemma cancel_loop_heap:
  "assigns (for_each cancel_step cs s) ! v = assigns s ! v \<or>
   (assigns (for_each cancel_step cs s) ! v = l_Undef \<and>
    (decision s ! v \<longrightarrow> v \<in> set (order_heap (for_each cancel_step cs s))))"
proof (induction cs arbitrary: s)
  case Nil
  then show ?case by simp
next
  case (Cons c cs)
  let ?t = "cancel_step c s"
  let ?u = "for_each cancel_step cs ?t"
  have fr: "set (order_heap ?t) \<subseteq> set (order_heap ?u)" "decision ?t = decision s"
    using cancel_loop_frame [of cs ?t] by auto
  from Cons.IH [of ?t]
  consider (same) "assigns ?u ! v = assigns ?t ! v"
    | (undone) "assigns ?u ! v = l_Undef" "decision ?t ! v \<longrightarrow> v \<in> set (order_heap ?u)"
    by blast
  then show ?case
  proof cases
    case same
    show ?thesis
    proof (cases "v = var (trail s ! c) \<and> v < length (assigns s)")
      case True
      then have "assigns ?t ! v = l_Undef" by simp
      moreover have "decision s ! v \<longrightarrow> v \<in> set (order_heap ?u)"
        using True fr(1) by (auto simp: order_heap_cancel_step)
      ultimately show ?thesis using same by simp
    next
      case False
      then have "assigns ?t ! v = assigns s ! v"
        by (auto simp: nth_list_update list_update_beyond)
      then show ?thesis using same by simp
    qed
  next
    case undone
    then show ?thesis using fr(2) by simp
  qed
qed

lemma cancelUntil_heap_covers:
  assumes "heap_covers s"
  shows "heap_covers (cancelUntil lev s)"
proof (cases "decisionLevel s > lev")
  case False
  then show ?thesis using assms by (simp add: cancelUntil_def)
next
  case True
  let ?cs = "rev [trail_lim s ! lev ..< length (trail s)]"
  let ?u = "for_each cancel_step ?cs s"
  have fr: "decision ?u = decision s" "next_var ?u = next_var s"
    "set (order_heap s) \<subseteq> set (order_heap ?u)"
    using cancel_loop_frame [of ?cs s] by auto
  have "decision ?u ! v \<and> assigns ?u ! v = l_Undef \<longrightarrow> v \<in> set (order_heap ?u)"
    if v: "v < nVars s" for v
  proof -
    have old: "decision s ! v \<and> assigns s ! v = l_Undef \<longrightarrow> v \<in> set (order_heap s)"
      using assms v by (simp add: heap_covers_def list_all_iff value_var_def)
    show ?thesis using cancel_loop_heap [of ?cs s v] old fr by auto
  qed
  then show ?thesis using True fr
    by (simp add: cancelUntil_def Let_def heap_covers_def list_all_iff value_var_def nVars_def)
qed

lemma filter_le_take:
  assumes "sorted xs" "lev < length xs" "i < xs ! lev"
  shows "filter (\<lambda>b. b \<le> i) xs = filter (\<lambda>b. b \<le> i) (take lev xs)"
proof -
  have "\<forall>b\<in>set (drop lev xs). i < b"
  proof
    fix b assume "b \<in> set (drop lev xs)"
    then obtain k where "k < length (drop lev xs)" "b = drop lev xs ! k"
      by (auto simp: in_set_conv_nth)
    then have "b = xs ! (lev + k)" "lev + k < length xs" by auto
    then have "xs ! lev \<le> b" using assms(1) by (simp add: sorted_iff_nth_mono)
    then show "i < b" using assms(3) by simp
  qed
  then have e: "filter (\<lambda>b. b \<le> i) (drop lev xs) = []" by (auto simp: filter_empty_conv)
  have "filter (\<lambda>b. b \<le> i) xs = filter (\<lambda>b. b \<le> i) (take lev xs @ drop lev xs)"
    by simp
  also have "\<dots> = filter (\<lambda>b. b \<le> i) (take lev xs) @ filter (\<lambda>b. b \<le> i) (drop lev xs)"
    by (simp only: filter_append)
  finally show ?thesis using e by simp
qed

lemma cancelUntil_levels:
  assumes "trail_levels_ok s"
  shows "trail_levels_ok (cancelUntil lev s) \<and>
         (\<forall>l\<in>set (trail (cancelUntil lev s)). level_of (cancelUntil lev s) (var l) \<le> lev)"
proof (cases "decisionLevel s > lev")
  case False
  have "level_of s (var l) \<le> lev" if lmem: "l \<in> set (trail s)" for l
  proof -
    obtain i where i: "i < length (trail s)" "l = trail s ! i"
      using lmem by (auto simp: in_set_conv_nth)
    then have "level_of s (var l) = length (filter (\<lambda>b. b \<le> i) (trail_lim s))"
      using assms by (simp add: trail_levels_ok_def list_all_iff)
    also have "\<dots> \<le> length (trail_lim s)" by simp
    finally show ?thesis using False by (simp add: decisionLevel_def)
  qed
  then show ?thesis using False assms by (simp add: cancelUntil_def)
next
  case True
  let ?lim = "trail_lim s ! lev"
  let ?cs = "rev [?lim ..< length (trail s)]"
  let ?u = "for_each cancel_step ?cs s"
  let ?t = "cancelUntil lev s"
  have fr: "trail ?u = trail s" "trail_lim ?u = trail_lim s" "vardata ?u = vardata s"
    using cancel_loop_frame [of ?cs s] by auto
  have t: "trail ?t = take ?lim (trail s)" "trail_lim ?t = take lev (trail_lim s)"
    "vardata ?t = vardata s"
    using True fr by (simp_all add: cancelUntil_def Let_def)
  have srt: "sorted (trail_lim s)" and lv: "lev < length (trail_lim s)"
    using assms True by (simp_all add: trail_levels_ok_def decisionLevel_def)
  have lev_i: "level_of ?t (var (trail ?t ! i)) = length (filter (\<lambda>b. b \<le> i) (trail_lim ?t))
               \<and> level_of ?t (var (trail ?t ! i)) \<le> lev"
    if i: "i < length (trail ?t)" for i
  proof -
    have i1: "i < ?lim" "i < length (trail s)" using i t by simp_all
    have "level_of ?t (var (trail ?t ! i)) = level_of s (var (trail s ! i))"
      using t i1 by (simp add: level_of_def)
    also have "\<dots> = length (filter (\<lambda>b. b \<le> i) (trail_lim s))"
      using assms i1 by (simp add: trail_levels_ok_def list_all_iff)
    also have "\<dots> = length (filter (\<lambda>b. b \<le> i) (trail_lim ?t))"
      using filter_le_take [OF srt lv i1(1)] t by simp
    finally have eq: "level_of ?t (var (trail ?t ! i)) = length (filter (\<lambda>b. b \<le> i) (trail_lim ?t))" .
    have "length (filter (\<lambda>b. b \<le> i) (trail_lim ?t)) \<le> length (trail_lim ?t)" by simp
    also have "\<dots> \<le> lev" using t by simp
    finally show ?thesis using eq by simp
  qed
  have "sorted (trail_lim ?t)" using srt t by (simp add: sorted_wrt_take)
  moreover have "\<forall>l\<in>set (trail ?t). level_of ?t (var l) \<le> lev"
  proof
    fix l assume "l \<in> set (trail ?t)"
    then obtain i where "i < length (trail ?t)" "l = trail ?t ! i"
      by (auto simp: in_set_conv_nth)
    then show "level_of ?t (var l) \<le> lev" using lev_i by blast
  qed
  moreover have "list_all (\<lambda>i. level_of ?t (var (trail ?t ! i))
                    = length (filter (\<lambda>b. b \<le> i) (trail_lim ?t))) [0 ..< length (trail ?t)]"
    using lev_i by (simp add: list_all_iff)
  ultimately show ?thesis by (simp add: trail_levels_ok_def)
qed

text \<open>C6, as stated, fails in its second half.  \<^verbatim>\<open>cancelUntil\<close> only inserts; assigned
  variables leave the heap when \<^verbatim>\<open>pickBranchLit\<close> pops them or the heap is rebuilt.
  After \<^verbatim>\<open>cancelUntil(0)\<close> on the solver that was given the unit clause \<open>(1)\<close>, variable 1
  (index 0) is in the heap, where \<^verbatim>\<open>newVar\<close> put it, and is assigned true.  After
  \<^verbatim>\<open>cancelUntil(1)\<close> on the state above, which undoes the second assumption, the heap
  holds variables 1 and 4 (indices 0 and 3), which are decision-eligible and still
  assigned true at level 1.  Neither depends on the order of the heap.\<close>

theorem cancelUntil_invariant_counterexample:
  "0 \<in> set (order_heap (cancelUntil 0 unit_solver)) \<and>
   decision (cancelUntil 0 unit_solver) ! 0 \<and>
   value_var (cancelUntil 0 unit_solver) 0 = l_True \<and>
   decisionLevel two_assumptions = 2 \<and>
   trail two_assumptions = [mkLit 0 False, mkLit 3 False, mkLit 1 False] \<and>
   trail (cancelUntil 1 two_assumptions) = [mkLit 0 False, mkLit 3 False] \<and>
   0 \<in> set (order_heap (cancelUntil 1 two_assumptions)) \<and>
   3 \<in> set (order_heap (cancelUntil 1 two_assumptions)) \<and>
   decision (cancelUntil 1 two_assumptions) ! 0 \<and>
   decision (cancelUntil 1 two_assumptions) ! 3 \<and>
   value_var (cancelUntil 1 two_assumptions) 0 = l_True \<and>
   value_var (cancelUntil 1 two_assumptions) 3 = l_True"
  by code_simp

text \<open>C6 (amended): if before the call the levels of the trail entries agree with the
  trail limits and the heap holds every decision-eligible unassigned variable, then after
  \<^verbatim>\<open>cancelUntil(level)\<close> every entry left on the trail has decision level at most
  \<open>level\<close>, and the heap holds every decision-eligible variable that is unassigned (it may
  hold assigned ones too); both invariants hold again.\<close>

theorem cancelUntil_invariant:
  assumes "trail_levels_ok s" and "heap_covers s"
  shows "(\<forall>l\<in>set (trail (cancelUntil lev s)). level_of (cancelUntil lev s) (var l) \<le> lev) \<and>
         (\<forall>v<nVars (cancelUntil lev s).
            decision (cancelUntil lev s) ! v \<and> value_var (cancelUntil lev s) v = l_Undef
            \<longrightarrow> v \<in> set (order_heap (cancelUntil lev s))) \<and>
         trail_levels_ok (cancelUntil lev s) \<and> heap_covers (cancelUntil lev s)"
  using cancelUntil_levels [OF assms(1), of lev] cancelUntil_heap_covers [OF assms(2), of lev]
  by (simp add: heap_covers_def list_all_iff)

theorem cancelUntil_invariant_witness:
  "trail_levels_ok two_assumptions \<and> heap_covers two_assumptions \<and>
   decisionLevel two_assumptions = 2 \<and>
   trail (cancelUntil 1 two_assumptions) = [mkLit 0 False, mkLit 3 False] \<and>
   list_all (\<lambda>l. level_of (cancelUntil 1 two_assumptions) (var l) \<le> 1)
     (trail (cancelUntil 1 two_assumptions)) \<and>
   heap_covers (cancelUntil 1 two_assumptions)"
proof -
  have h: "trail_levels_ok two_assumptions \<and> heap_covers two_assumptions \<and>
      decisionLevel two_assumptions = 2 \<and>
      trail (cancelUntil 1 two_assumptions) = [mkLit 0 False, mkLit 3 False]"
    by code_simp
  then show ?thesis using cancelUntil_invariant [of two_assumptions 1]
    by (simp add: list_all_iff)
qed

section \<open>The branching literal\<close>

















section \<open>Activity bumps and decay at a conflict\<close>

lemma for_each_preserves:
  "(\<And>x t. g (f x t) = g t) \<Longrightarrow> g (for_each f xs s) = g s"
  by (induction xs arbitrary: s) auto

lemma varBump_simps [simp]:
  "seen (varBumpActivity v s) = seen s" "vardata (varBumpActivity v s) = vardata s"
  "assigns (varBumpActivity v s) = assigns s" "next_var (varBumpActivity v s) = next_var s"
  "trail (varBumpActivity v s) = trail s" "trail_lim (varBumpActivity v s) = trail_lim s"
  "ca (varBumpActivity v s) = ca s" "opt (varBumpActivity v s) = opt s"
  "seen (varBumpActivity_New1 v s) = seen s" "vardata (varBumpActivity_New1 v s) = vardata s"
  "assigns (varBumpActivity_New1 v s) = assigns s" "next_var (varBumpActivity_New1 v s) = next_var s"
  "trail (varBumpActivity_New1 v s) = trail s" "trail_lim (varBumpActivity_New1 v s) = trail_lim s"
  "ca (varBumpActivity_New1 v s) = ca s" "opt (varBumpActivity_New1 v s) = opt s"
  by (simp_all add: varBumpActivity_def varBumpActivity_New1_def Let_def)

lemma heur_varBump_seen:
  "heur (varBumpActivity v (s\<lparr>seen := x\<rparr>)) = heur (varBumpActivity v s)"
  "heur (varBumpActivity_New1 v (s\<lparr>seen := x\<rparr>)) = heur (varBumpActivity_New1 v s)"
  by (simp_all add: heur_def varBumpActivity_def varBumpActivity_New1_def Let_def)

lemma heur_cong_varBump:
  "heur t = heur s \<Longrightarrow> heur (varBumpActivity v t) = heur (varBumpActivity v s)"
  "heur t = heur s \<Longrightarrow> heur (varBumpActivity_New1 v t) = heur (varBumpActivity_New1 v s)"
  by (simp_all add: heur_def varBumpActivity_def varBumpActivity_New1_def Let_def)

lemma bump_channel_cong:
  assumes "next_var s1 = next_var s0" "assigns s1 = assigns s0"
  shows "bump_channel s1 v t = bump_channel s0 v t"
  unfolding bump_channel_def nVars_def value_var_def assms by (rule refl)

lemma heur_bump_channel_cong:
  assumes "heur t = heur s"
  shows "heur (bump_channel s0 v t) = heur (bump_channel s0 v s)"
proof (cases "v < nVars s0 div 3 \<and> value_var s0 v = l_True")
  case True
  have "bump_channel s0 v t = varBumpActivity_New1 v t" "bump_channel s0 v s = varBumpActivity_New1 v s"
    unfolding bump_channel_def using True by (rule if_P)+
  then show ?thesis using heur_cong_varBump(2) [OF assms] by (simp only:)
next
  case False
  have "bump_channel s0 v t = varBumpActivity v t" "bump_channel s0 v s = varBumpActivity v s"
    unfolding bump_channel_def using False by (rule if_not_P)+
  then show ?thesis using heur_cong_varBump(1) [OF assms] by (simp only:)
qed

lemma heur_for_each_bump_cong:
  "heur t = heur s \<Longrightarrow> heur (for_each (bump_channel s0) vs t) = heur (for_each (bump_channel s0) vs s)"
proof (induction vs arbitrary: t s)
  case Nil
  then show ?case by simp
next
  case (Cons v vs)
  have "heur (bump_channel s0 v t) = heur (bump_channel s0 v s)"
    using Cons.prems by (rule heur_bump_channel_cong)
  then have "heur (for_each (bump_channel s0) vs (bump_channel s0 v t))
           = heur (for_each (bump_channel s0) vs (bump_channel s0 v s))"
    by (rule Cons.IH)
  then show ?case by simp
qed

lemma analyze_lit_fst:
  "fst (analyze_lit q (s, pathC, out)) =
     (if seen s ! var q = 0 \<and> level_of s (var q) > 0
      then (bump_channel s (var q) s)\<lparr>seen := (seen s)[var q := 1]\<rparr> else s)"
  by (simp add: analyze_lit_def Let_def bump_channel_def)

lemma analyze_lits_bumps:
  "heur (fst (for_each analyze_lit ls (s, pathC, out)))
     = heur (for_each (bump_channel s) (bumped_vars (seen s) (level_of s) ls) s)"
proof (induction ls arbitrary: s pathC out)
  case Nil
  then show ?case by simp
next
  case (Cons q qs)
  obtain s2 pc' out' where st: "analyze_lit q (s, pathC, out) = (s2, pc', out')"
    by (cases "analyze_lit q (s, pathC, out)")
  have s2: "s2 = (if seen s ! var q = 0 \<and> level_of s (var q) > 0
                  then (bump_channel s (var q) s)\<lparr>seen := (seen s)[var q := 1]\<rparr> else s)"
    using analyze_lit_fst [of q s pathC out] st by simp
  have step: "heur (fst (for_each analyze_lit (q # qs) (s, pathC, out)))
          = heur (for_each (bump_channel s2) (bumped_vars (seen s2) (level_of s2) qs) s2)"
    using st Cons.IH [of s2 pc' out'] by simp
  show ?case
  proof (cases "seen s ! var q = 0 \<and> level_of s (var q) > 0")
    case False
    then have e: "s2 = s" unfolding s2 by (rule if_not_P)
    have bv: "bumped_vars (seen s) (level_of s) (q # qs) = bumped_vars (seen s) (level_of s) qs"
      using False by auto
    show ?thesis using step unfolding e bv .
  next
    case True
    let ?b = "bump_channel s (var q) s"
    have s2': "s2 = ?b\<lparr>seen := (seen s)[var q := 1]\<rparr>" unfolding s2 using True by (rule if_P)
    have fr: "vardata ?b = vardata s" "assigns ?b = assigns s" "next_var ?b = next_var s"
      by (simp_all add: bump_channel_def)
    have ch: "bump_channel s2 = bump_channel s"
    proof (intro ext)
      fix v t
      show "bump_channel s2 v t = bump_channel s v t"
        using fr s2' by (intro bump_channel_cong) simp_all
    qed
    have lv: "level_of s2 = level_of s" using fr s2' by (simp add: level_of_def fun_eq_iff)
    have sn: "seen s2 = (seen s)[var q := 1]" using s2' by simp
    have h: "heur s2 = heur ?b" using s2' by (simp add: heur_def)
    have "heur (for_each (bump_channel s2) (bumped_vars (seen s2) (level_of s2) qs) s2)
          = heur (for_each (bump_channel s) (bumped_vars ((seen s)[var q := 1]) (level_of s) qs) s2)"
      by (simp only: ch lv sn)
    also have "\<dots> = heur (for_each (bump_channel s) (bumped_vars ((seen s)[var q := 1]) (level_of s) qs) ?b)"
      using heur_for_each_bump_cong [OF h] .
    finally have r: "heur (for_each (bump_channel s2) (bumped_vars (seen s2) (level_of s2) qs) s2)
          = heur (for_each (bump_channel s) (bumped_vars ((seen s)[var q := 1]) (level_of s) qs) ?b)" .
    have bv: "bumped_vars (seen s) (level_of s) (q # qs)
                = var q # bumped_vars ((seen s)[var q := 1]) (level_of s) qs"
      using True by auto
    show ?thesis using step r unfolding bv by simp
  qed
qed

lemma bumped_vars_set:
  "\<forall>q\<in>set ls. var q < length sn \<Longrightarrow>
   distinct (bumped_vars sn lv ls) \<and>
   set (bumped_vars sn lv ls) = {v. \<exists>q\<in>set ls. v = var q \<and> sn ! v = 0 \<and> lv v > 0}"
proof (induction ls arbitrary: sn)
  case Nil
  then show ?case by simp
next
  case (Cons q qs)
  show ?case
  proof (cases "sn ! var q = 0 \<and> lv (var q) > 0")
    case False
    then show ?thesis using Cons.IH [of sn] Cons.prems by auto
  next
    case True
    let ?sn = "sn[var q := 1]"
    have IH: "distinct (bumped_vars ?sn lv qs)"
      "set (bumped_vars ?sn lv qs) = {v. \<exists>p\<in>set qs. v = var p \<and> ?sn ! v = 0 \<and> lv v > 0}"
      using Cons.IH [of ?sn] Cons.prems by auto
    have nth: "?sn ! v = (if v = var q then 1 else sn ! v)" for v
      using Cons.prems by (auto simp: nth_list_update)
    have "var q \<notin> set (bumped_vars ?sn lv qs)" using IH(2) nth by auto
    moreover have "set (bumped_vars ?sn lv qs) \<union> {var q}
                   = {v. \<exists>p\<in>set (q # qs). v = var p \<and> sn ! v = 0 \<and> lv v > 0}"
      using IH(2) nth True by auto
    ultimately show ?thesis using True IH(1) by auto
  qed
qed


lemma set_cl_activity_simps [simp]:
  "activity (set_cl_activity cr a s) = activity s" "var_inc (set_cl_activity cr a s) = var_inc s"
  "var_inc1 (set_cl_activity cr a s) = var_inc1 s" "next_var (set_cl_activity cr a s) = next_var s"
  "assigns (set_cl_activity cr a s) = assigns s" "seen (set_cl_activity cr a s) = seen s"
  "vardata (set_cl_activity cr a s) = vardata s" "trail (set_cl_activity cr a s) = trail s"
  "opt (set_cl_activity cr a s) = opt s" "trail_lim (set_cl_activity cr a s) = trail_lim s"
  by (simp_all add: set_cl_activity_def)

lemma claBumpActivity_simps [simp]:
  "activity (claBumpActivity cr s) = activity s" "var_inc (claBumpActivity cr s) = var_inc s"
  "var_inc1 (claBumpActivity cr s) = var_inc1 s" "next_var (claBumpActivity cr s) = next_var s"
  "assigns (claBumpActivity cr s) = assigns s" "seen (claBumpActivity cr s) = seen s"
  "vardata (claBumpActivity cr s) = vardata s" "trail (claBumpActivity cr s) = trail s"
  "opt (claBumpActivity cr s) = opt s" "trail_lim (claBumpActivity cr s) = trail_lim s"
  by (simp_all add: claBumpActivity_def Let_def for_each_preserves)

lemma analyze_lit_frame:
  "next_var (fst (analyze_lit q st)) = next_var (fst st)"
  "assigns (fst (analyze_lit q st)) = assigns (fst st)"
  "vardata (fst (analyze_lit q st)) = vardata (fst st)"
  "opt (fst (analyze_lit q st)) = opt (fst st)"
  by (cases st; simp add: analyze_lit_def Let_def)+

lemma analyze_lits_frame:
  "next_var (fst (for_each analyze_lit ls st)) = next_var (fst st)"
  "assigns (fst (for_each analyze_lit ls st)) = assigns (fst st)"
  "vardata (fst (for_each analyze_lit ls st)) = vardata (fst st)"
  "opt (fst (for_each analyze_lit ls st)) = opt (fst st)"
  by (induction ls arbitrary: st; simp add: analyze_lit_frame)+

lemma analyze_loop_bumps:
  "analyze_loop confl p idx pathC out s = Some (p', out', s') \<Longrightarrow>
   heur s' = heur (for_each (bump_channel s) (analyze_bumped confl p idx pathC out s) s) \<and>
   next_var s' = next_var s \<and> assigns s' = assigns s \<and> vardata s' = vardata s \<and> opt s' = opt s"
proof (induction confl p idx pathC out s rule: analyze_loop.induct)
  case (1 confl p idx pathC out s)
  from "1.prems" obtain cr where cr: "confl = Some cr"
    by (cases confl) (simp_all add: analyze_loop.simps)
  let ?ls = "drop (if p = None then 0 else 1) (lits (ca s ! cr))"
  let ?s0 = "if learnt (ca s ! cr) then claBumpActivity cr s else s"
  obtain s2 pathC2 out2 where fe: "for_each analyze_lit ?ls (?s0, pathC, out) = (s2, pathC2, out2)"
    by (cases "for_each analyze_lit ?ls (?s0, pathC, out)")
  from "1.prems" cr fe obtain i where ts: "trail_scan s2 idx = Some i"
    by (cases "trail_scan s2 idx") (simp_all add: analyze_loop.simps)
  let ?p = "trail s2 ! i"
  let ?c = "reason_of s2 (var ?p)"
  let ?s3 = "s2\<lparr>seen := (seen s2)[var ?p := 0]\<rparr>"
  have s0: "seen ?s0 = seen s" "level_of ?s0 = level_of s" "heur ?s0 = heur s"
    "next_var ?s0 = next_var s" "assigns ?s0 = assigns s" "vardata ?s0 = vardata s" "opt ?s0 = opt s"
    by (simp_all add: level_of_def heur_def fun_eq_iff)
  have ch0: "bump_channel ?s0 = bump_channel s"
    by (intro ext bump_channel_cong) (simp_all add: s0)
  have "heur s2 = heur (for_each (bump_channel ?s0) (bumped_vars (seen ?s0) (level_of ?s0) ?ls) ?s0)"
    using analyze_lits_bumps [of ?ls ?s0 pathC out] fe by simp
  also have "\<dots> = heur (for_each (bump_channel s) (bumped_vars (seen s) (level_of s) ?ls) ?s0)"
    by (simp only: ch0 s0)
  also have "\<dots> = heur (for_each (bump_channel s) (bumped_vars (seen s) (level_of s) ?ls) s)"
    using heur_for_each_bump_cong [OF s0(3)] .
  finally have h2: "heur s2 = heur (for_each (bump_channel s) (bumped_vars (seen s) (level_of s) ?ls) s)" .
  have fr2: "next_var s2 = next_var s" "assigns s2 = assigns s" "vardata s2 = vardata s" "opt s2 = opt s"
    using analyze_lits_frame [of ?ls "(?s0, pathC, out)"] fe s0 by simp_all
  have h3: "heur ?s3 = heur s2" by (simp add: heur_def)
  have fr3: "next_var ?s3 = next_var s" "assigns ?s3 = assigns s" "vardata ?s3 = vardata s" "opt ?s3 = opt s"
    using fr2 by simp_all
  show ?case
  proof (cases "pathC2 - 1 > 0")
    case False
    have "s' = ?s3"
      using "1.prems" cr fe ts False by (auto simp: analyze_loop.simps Let_def)
    moreover have "analyze_bumped confl p idx pathC out s = bumped_vars (seen s) (level_of s) ?ls"
      using cr fe ts False by (subst analyze_bumped.simps) (simp add: Let_def)
    ultimately show ?thesis using h2 h3 fr3 by simp
  next
    case True
    have rec: "analyze_loop ?c (Some ?p) i (pathC2 - 1) out2 ?s3 = Some (p', out', s')"
      using "1.prems" cr fe ts True by (simp add: analyze_loop.simps Let_def)
    have IH: "heur s' = heur (for_each (bump_channel ?s3)
                 (analyze_bumped ?c (Some ?p) i (pathC2 - 1) out2 ?s3) ?s3) \<and>
              next_var s' = next_var ?s3 \<and> assigns s' = assigns ?s3 \<and> vardata s' = vardata ?s3
              \<and> opt s' = opt ?s3"
      using "1.IH" [OF cr fe [symmetric] refl ts refl refl refl True rec] .
    have ch3: "bump_channel ?s3 = bump_channel s"
      by (intro ext bump_channel_cong) (simp_all add: fr2)
    let ?rest = "analyze_bumped ?c (Some ?p) i (pathC2 - 1) out2 ?s3"
    have ab: "analyze_bumped confl p idx pathC out s = bumped_vars (seen s) (level_of s) ?ls @ ?rest"
      using cr fe ts True by (subst analyze_bumped.simps) (simp add: Let_def)
    have "heur (for_each (bump_channel s) ?rest ?s3)
            = heur (for_each (bump_channel s) ?rest
                 (for_each (bump_channel s) (bumped_vars (seen s) (level_of s) ?ls) s))"
      by (rule heur_for_each_bump_cong) (simp only: h3 h2)
    then have "heur s' = heur (for_each (bump_channel s) (analyze_bumped confl p idx pathC out s) s)"
      using IH unfolding ch3 ab for_each_append by simp
    then show ?thesis using IH fr3 by simp
  qed
qed



lemma same_heur_refl [simp]: "same_heur s s"
  by (simp add: same_heur_def)

lemma same_heur_trans: "same_heur s t \<Longrightarrow> same_heur t u \<Longrightarrow> same_heur s u"
  by (simp add: same_heur_def)

lemma same_heur_seen [simp]: "same_heur s (t\<lparr>seen := x\<rparr>) = same_heur s t"
  by (simp add: same_heur_def heur_def)

lemma mark_failed_heur:
  "same_heur s (fst st) \<Longrightarrow> same_heur s (fst (mark_failed stack st))"
  unfolding mark_failed_def
  by (induction stack arbitrary: st) (auto simp: split_beta)

lemma litRedundant_loop_heur:
  assumes "litRedundant_loop i p stack toclear s = Some y"
  shows "same_heur s (snd (snd y))"
proof (rule litRedundant_loop.raw_induct
    [where P = "\<lambda>i p stack toclear s y. same_heur s (snd (snd y))", OF _ assms])
  fix f :: "nat \<Rightarrow> lit \<Rightarrow> (nat \<times> lit) list \<Rightarrow> lit list \<Rightarrow> solver \<Rightarrow> (bool \<times> lit list \<times> solver) option"
    and i p stack toclear s y
  assume IH: "\<And>i p stack toclear s y. f i p stack toclear s = Some y \<Longrightarrow> same_heur s (snd (snd y))"
    and body: "(case reason_of s (var p) of
        None \<Rightarrow> None
      | Some cr \<Rightarrow>
          if i < length (lits (ca s ! cr))
          then
            (let l = lits (ca s ! cr) ! i in
             if level_of s (var l) = 0 \<or> seen s ! var l = 1 \<or> seen s ! var l = 2
             then f (i + 1) p stack toclear s
             else if reason_of s (var l) = None \<or> seen s ! var l = 3
             then (case mark_failed (stack @ [(0, p)]) (s, toclear) of
                     (s', tc) \<Rightarrow> Some (False, tc, s'))
             else f 1 l (stack @ [(i, p)]) toclear s)
          else
            (case (if seen s ! var p = 0
                   then (s\<lparr>seen := (seen s)[var p := 2]\<rparr>, toclear @ [p])
                   else (s, toclear)) of
               (s1, tc1) \<Rightarrow>
                 if stack = [] then Some (True, tc1, s1)
                 else f (fst (last stack) + 1) (snd (last stack))
                        (butlast stack) tc1 s1)) = Some y"
  have mf: "same_heur s (fst (mark_failed (stack @ [(0, p)]) (s, toclear)))"
    by (rule mark_failed_heur) simp
  have sn: "same_heur s (s\<lparr>seen := (seen s)[var p := 2]\<rparr>)" by simp
  show "same_heur s (snd (snd y))"
    using body mf
    by (auto simp: Let_def split: option.splits if_splits prod.splits
             dest!: IH intro: same_heur_trans [OF sn])
qed

lemma minimize_deep_heur:
  "minimize_deep ls kept toclear s = Some (k, tc, s') \<Longrightarrow> same_heur s s'"
proof (induction ls arbitrary: kept toclear s)
  case Nil
  then show ?case by simp
next
  case (Cons l ls)
  show ?case
  proof (cases "reason_of s (var l) = None")
    case True
    then show ?thesis using Cons.prems Cons.IH by simp
  next
    case False
    then obtain r tc1 s1 where lr: "litRedundant l toclear s = Some (r, tc1, s1)"
      and md: "minimize_deep ls (if r then kept else kept @ [l]) tc1 s1 = Some (k, tc, s')"
      using Cons.prems by (auto split: option.splits)
    have "same_heur s s1" using litRedundant_loop_heur [of 1 l "[]" toclear s] lr
      by (simp add: litRedundant_def)
    then show ?thesis using Cons.IH [OF md] by (rule same_heur_trans)
  qed
qed

lemma clear_seen_heur: "same_heur s (clear_seen ls s)"
proof -
  have "heur (clear_seen ls s) = heur s" "opt (clear_seen ls s) = opt s"
    unfolding clear_seen_def by (rule for_each_preserves; simp add: heur_def)+
  then show ?thesis by (simp add: same_heur_def)
qed

lemma analyze_bumps:
  assumes "analyze confl s = Some (learnt_clause, bt, s')"
  shows "heur s' = heur (for_each (bump_channel s)
                           (analyze_bumped (Some confl) None (length (trail s)) 0 [] s) s) \<and>
         opt s' = opt s"
proof -
  from assms obtain p out s1 where
    lp: "analyze_loop (Some confl) None (length (trail s)) 0 [] s = Some (p, out, s1)"
    by (auto simp: analyze_def split: option.splits)
  from assms lp obtain kept toclear s2 where
    mn: "(if ccmin_mode (opt s1) = 2 then minimize_deep out [] (neg p # out) s1
          else if ccmin_mode (opt s1) = 1 then Some (minimize_basic out s1, neg p # out, s1)
          else Some (out, neg p # out, s1)) = Some (kept, toclear, s2)"
    by (auto simp: analyze_def Let_def split: option.splits)
  have h12: "same_heur s1 s2"
    using mn minimize_deep_heur [of out "[]" "neg p # out" s1 kept toclear s2]
    by (auto split: if_splits)
  let ?s3 = "s2\<lparr>stat := (stat s2)\<lparr>max_literals := max_literals (stat s2) + length (neg p # out),
                                    tot_literals := tot_literals (stat s2) + length (neg p # kept)\<rparr>\<rparr>"
  have s': "s' = clear_seen toclear ?s3"
    using assms lp mn by (auto simp: analyze_def Let_def split: if_splits prod.splits)
  have "same_heur s2 ?s3" by (simp add: same_heur_def heur_def)
  then have "same_heur s2 s'" unfolding s' using clear_seen_heur by (rule same_heur_trans)
  then have "same_heur s1 s'" using h12 same_heur_trans by blast
  then show ?thesis using analyze_loop_bumps [OF lp] by (simp add: same_heur_def)
qed


lemma cancelUntil_heur: "same_heur s (cancelUntil lev s)"
proof -
  have "heur (for_each cancel_step cs s) = heur s" "opt (for_each cancel_step cs s) = opt s" for cs
    by (rule for_each_preserves;
        simp add: heur_def cancel_step_def Let_def insertVarOrder_def heap_insert_def)+
  then show ?thesis by (simp add: cancelUntil_def Let_def same_heur_def heur_def)
qed

lemma install_learnt_heur: "same_heur s (install_learnt c s)"
  by (simp add: install_learnt_def same_heur_def heur_def alloc_def attachClause_def Let_def
      uncheckedEnqueue_def push_watch_def set_watch_list_def)

lemma adjust_learntsize_heur: "same_heur s (adjust_learntsize s)"
  by (simp add: adjust_learntsize_def same_heur_def heur_def Let_def)

lemma decay_cong:
  "same_heur s t \<Longrightarrow>
   heur (decay_activities t) = heur (varDecayActivity_New1 (varDecayActivity s))"
  by (simp add: same_heur_def heur_def decay_activities_def claDecayActivity_def
      varDecayActivity_New1_def varDecayActivity_def)

lemma search_conflict_decay:
  assumes "search_conflict confl s = Some s'"
  shows "\<exists>learnt_clause bt s1. analyze confl s = Some (learnt_clause, bt, s1) \<and>
           heur s' = heur (varDecayActivity_New1 (varDecayActivity s1))"
proof -
  from assms obtain lc bt s1 where an: "analyze confl s = Some (lc, bt, s1)"
    and s': "s' = adjust_learntsize (decay_activities (install_learnt lc (cancelUntil bt s1)))"
    by (auto simp: search_conflict_def split: option.splits)
  let ?t = "install_learnt lc (cancelUntil bt s1)"
  have "same_heur s1 ?t"
    using cancelUntil_heur [of s1 bt] install_learnt_heur [of "cancelUntil bt s1" lc]
    by (rule same_heur_trans)
  then have "heur (decay_activities ?t) = heur (varDecayActivity_New1 (varDecayActivity s1))"
    by (rule decay_cong)
  moreover have "heur s' = heur (decay_activities ?t)"
    using adjust_learntsize_heur [of "decay_activities ?t"] s' by (simp add: same_heur_def)
  ultimately show ?thesis using an by simp
qed

lemma search_step_conflict:
  assumes "propagate s = Some (Some confl, s1)"
  shows "search_step E n c s =
           (if decisionLevel s1 = 0
            then Some (Return l_False (s1\<lparr>stat := (stat s1)\<lparr>conflicts := conflicts (stat s1) + 1\<rparr>\<rparr>))
            else map_option (Continue (c + 1))
                   (search_conflict confl (s1\<lparr>stat := (stat s1)\<lparr>conflicts := conflicts (stat s1) + 1\<rparr>\<rparr>)))"
  using assms by (simp add: search_step_def Let_def decisionLevel_def)


text \<open>C8, as stated, fails in its last part: a conflict met at decision level 0 is
  counted and ends \<^verbatim>\<open>search\<close> with \<^verbatim>\<open>l_False\<close> before any decay.  On the four clauses
  over two variables \<^verbatim>\<open>solve_\<close> answers \<^verbatim>\<open>l_False\<close> after two conflicts, and the increments
  of both channels are those after one decay, not two.\<close>

theorem decay_after_every_conflict_counterexample:
  "map_option (\<lambda>(r, s). (r, conflicts (stat s))) (solve' env0 two_conflicts) = Some (l_False, 2) \<and>
   map_option (\<lambda>(r, s). var_inc s) (solve' env0 two_conflicts)
     = Some (var_inc (varDecayActivity two_conflicts)) \<and>
   map_option (\<lambda>(r, s). var_inc1 s) (solve' env0 two_conflicts)
     = Some (var_inc1 (varDecayActivity_New1 two_conflicts)) \<and>
   var_inc (varDecayActivity (varDecayActivity two_conflicts))
     \<noteq> var_inc (varDecayActivity two_conflicts) \<and>
   var_inc1 (varDecayActivity_New1 (varDecayActivity_New1 two_conflicts))
     \<noteq> var_inc1 (varDecayActivity_New1 two_conflicts)"
  by code_simp

text \<open>C8 (amended).  In the loop of \<^verbatim>\<open>analyze\<close> over the literals of a clause under
  resolution, a literal whose variable is not marked seen and has a decision level above
  0 gets the variable bumped and marked, through \<^verbatim>\<open>varBumpActivity_New1\<close> exactly when the
  variable's index is below \<open>nVars()/3\<close> and the variable is assigned true, through
  \<^verbatim>\<open>varBumpActivity\<close> otherwise; any other literal changes nothing.  Over one clause the
  variables bumped are exactly those of its unmarked literals above level 0, each once.
  The activities and increments that \<^verbatim>\<open>analyze\<close> returns are those of its entry state
  after these bumps, clause by clause, and nothing else.  The conflict branch of
  \<^verbatim>\<open>search\<close> then applies \<^verbatim>\<open>varDecayActivity\<close> and \<^verbatim>\<open>varDecayActivity_New1\<close> once each
  and changes the activities no further; it is taken for every conflict met at a decision
  level above 0, while a conflict at level 0 makes \<^verbatim>\<open>search\<close> return \<^verbatim>\<open>l_False\<close> with no
  bump and no decay.\<close>

theorem conflict_bumps_and_decay:
  "(\<forall>q s pathC out.
      fst (analyze_lit q (s, pathC, out)) =
        (if seen s ! var q = 0 \<and> 0 < level_of s (var q)
         then (if var q < nVars s div 3 \<and> value_var s (var q) = l_True
               then varBumpActivity_New1 (var q) s
               else varBumpActivity (var q) s)\<lparr>seen := (seen s)[var q := 1]\<rparr>
         else s)) \<and>
   (\<forall>sn lv ls. (\<forall>q\<in>set ls. var q < length sn)
      \<longrightarrow> distinct (bumped_vars sn lv ls) \<and>
          set (bumped_vars sn lv ls) = {v. \<exists>q\<in>set ls. v = var q \<and> sn ! v = 0 \<and> 0 < lv v}) \<and>
   (\<forall>confl s learnt_clause bt s1.
      analyze confl s = Some (learnt_clause, bt, s1)
      \<longrightarrow> heur s1 = heur (for_each (bump_channel s)
                            (analyze_bumped (Some confl) None (length (trail s)) 0 [] s) s)) \<and>
   (\<forall>confl s s'.
      search_conflict confl s = Some s'
      \<longrightarrow> (\<exists>learnt_clause bt s1. analyze confl s = Some (learnt_clause, bt, s1) \<and>
             heur s' = heur (varDecayActivity_New1 (varDecayActivity s1)))) \<and>
   (\<forall>E n c s confl s1.
      propagate s = Some (Some confl, s1) \<and> 0 < decisionLevel s1
      \<longrightarrow> search_step E n c s =
            map_option (Continue (c + 1))
              (search_conflict confl
                 (s1\<lparr>stat := (stat s1)\<lparr>conflicts := conflicts (stat s1) + 1\<rparr>\<rparr>))) \<and>
   (\<forall>E n c s confl s1.
      propagate s = Some (Some confl, s1) \<and> decisionLevel s1 = 0
      \<longrightarrow> search_step E n c s =
            Some (Return l_False (s1\<lparr>stat := (stat s1)\<lparr>conflicts := conflicts (stat s1) + 1\<rparr>\<rparr>)))"
proof (intro conjI allI impI)
  fix q and s :: solver and pathC out
  show "fst (analyze_lit q (s, pathC, out)) =
        (if seen s ! var q = 0 \<and> 0 < level_of s (var q)
         then (if var q < nVars s div 3 \<and> value_var s (var q) = l_True
               then varBumpActivity_New1 (var q) s
               else varBumpActivity (var q) s)\<lparr>seen := (seen s)[var q := 1]\<rparr>
         else s)"
    by (simp add: analyze_lit_def Let_def)
next
  fix sn :: "nat list" and lv :: "var \<Rightarrow> nat" and ls :: "lit list"
  assume a: "\<forall>q\<in>set ls. var q < length sn"
  show "distinct (bumped_vars sn lv ls)" using bumped_vars_set [OF a] by simp
  show "set (bumped_vars sn lv ls) = {v. \<exists>q\<in>set ls. v = var q \<and> sn ! v = 0 \<and> 0 < lv v}"
    using bumped_vars_set [OF a] by simp
next
  fix confl and s :: solver and learnt_clause bt s1
  assume "analyze confl s = Some (learnt_clause, bt, s1)"
  then show "heur s1 = heur (for_each (bump_channel s)
                            (analyze_bumped (Some confl) None (length (trail s)) 0 [] s) s)"
    using analyze_bumps by blast
next
  fix confl and s s' :: solver
  assume "search_conflict confl s = Some s'"
  then show "\<exists>learnt_clause bt s1. analyze confl s = Some (learnt_clause, bt, s1) \<and>
             heur s' = heur (varDecayActivity_New1 (varDecayActivity s1))"
    by (rule search_conflict_decay)
next
  fix E :: env and n c and s :: solver and confl s1
  assume "propagate s = Some (Some confl, s1) \<and> 0 < decisionLevel s1"
  then show "search_step E n c s =
            map_option (Continue (c + 1))
              (search_conflict confl
                 (s1\<lparr>stat := (stat s1)\<lparr>conflicts := conflicts (stat s1) + 1\<rparr>\<rparr>))"
    using search_step_conflict [of s confl s1 E n c] by simp
next
  fix E :: env and n c and s :: solver and confl s1
  assume "propagate s = Some (Some confl, s1) \<and> decisionLevel s1 = 0"
  then show "search_step E n c s =
            Some (Return l_False (s1\<lparr>stat := (stat s1)\<lparr>conflicts := conflicts (stat s1) + 1\<rparr>\<rparr>))"
    using search_step_conflict [of s confl s1 E n c] by simp
qed

theorem conflict_bumps_and_decay_witness:
  "\<exists>s1 s2 s3 learnt_clause bt.
     propagate bump_conflict = Some (Some 1, s1) \<and> decisionLevel s1 = 1 \<and>
     analyze 1 (s1\<lparr>stat := (stat s1)\<lparr>conflicts := conflicts (stat s1) + 1\<rparr>\<rparr>)
       = Some (learnt_clause, bt, s2) \<and>
     search_step env0 100 0 bump_conflict = Some (Continue 1 s3) \<and>
     heur s1 = ([0, 0, 0], 20 / 19, 2) \<and>
     heur s2 = heur (varBumpActivity_New1 0 (varBumpActivity 1 s1)) \<and>
     heur s2 = ([2, 20 / 19, 0], 20 / 19, 2) \<and>
     heur s3 = heur (varDecayActivity_New1 (varDecayActivity s2)) \<and>
     heur s3 = ([2, 20 / 19, 0], 400 / 361, 4)"
proof -
  let ?r = "the (propagate bump_conflict)"
  let ?s1 = "snd ?r"
  let ?sc = "?s1\<lparr>stat := (stat ?s1)\<lparr>conflicts := conflicts (stat ?s1) + 1\<rparr>\<rparr>"
  have h1: "propagate bump_conflict \<noteq> None \<and> fst ?r = Some 1 \<and> decisionLevel ?s1 = 1 \<and>
            heur ?s1 = ([0, 0, 0], 20 / 19, 2)"
    by code_simp
  then have p: "propagate bump_conflict = Some (Some 1, ?s1)"
    by (metis option.collapse prod.collapse)
  have h2: "search_conflict 1 ?sc \<noteq> None \<and>
            heur (the (search_conflict 1 ?sc)) = ([2, 20 / 19, 0], 400 / 361, 4)"
    by code_simp
  then obtain s3 where sc: "search_conflict 1 ?sc = Some s3"
    and n3: "heur s3 = ([2, 20 / 19, 0], 400 / 361, 4)" by auto
  have h3: "heur (for_each (bump_channel ?sc)
                    (analyze_bumped (Some 1) None (length (trail ?sc)) 0 [] ?sc) ?sc)
              = heur (varBumpActivity_New1 0 (varBumpActivity 1 ?s1))"
    by code_simp
  have h4: "heur (varBumpActivity_New1 0 (varBumpActivity 1 ?s1)) = ([2, 20 / 19, 0], 20 / 19, 2)"
    by code_simp
  note c3 = conflict_bumps_and_decay [THEN conjunct2, THEN conjunct2, THEN conjunct1, rule_format]
  note c4 = conflict_bumps_and_decay [THEN conjunct2, THEN conjunct2, THEN conjunct2,
      THEN conjunct1, rule_format]
  note c5 = conflict_bumps_and_decay [THEN conjunct2, THEN conjunct2, THEN conjunct2,
      THEN conjunct2, THEN conjunct1, rule_format]
  from c4 [OF sc]
  obtain lc bt s2 where an: "analyze 1 ?sc = Some (lc, bt, s2)"
    and d: "heur s3 = heur (varDecayActivity_New1 (varDecayActivity s2))"
    by blast
  have e1: "heur s2 = heur (varBumpActivity_New1 0 (varBumpActivity 1 ?s1))"
    using c3 [OF an] h3 by (rule trans)
  have e2: "heur s2 = ([2, 20 / 19, 0], 20 / 19, 2)"
    using e1 h4 by (rule trans)
  have "search_step env0 100 0 bump_conflict = map_option (Continue (0 + 1)) (search_conflict 1 ?sc)"
    using p h1 by (intro c5) simp
  then have st: "search_step env0 100 0 bump_conflict = Some (Continue 1 s3)"
    using sc by simp
  have dl: "decisionLevel ?s1 = 1" and hs1: "heur ?s1 = ([0, 0, 0], 20 / 19, 2)"
    using h1 by blast+
  show ?thesis
    using p dl an st hs1 e1 e2 d n3 by blast
qed

section \<open>Reducing the learned clauses\<close>

lemma reduceDB_eq: "reduceDB E s = checkGarbage E (reduceDB_clauses s)"
  by (simp add: reduceDB_def)

lemma marks_only_refl: "marks_only s s"
  by (simp add: marks_only_def)

lemma smudge_simps [simp]:
  "ca (smudge p s) = ca s" "assigns (smudge p s) = assigns s" "vardata (smudge p s) = vardata s"
  "learnts (smudge p s) = learnts s"
  by (simp_all add: smudge_def)

lemma detachClause_lazy_simps [simp]:
  "ca (detachClause cr False s) = ca s" "assigns (detachClause cr False s) = assigns s"
  "vardata (detachClause cr False s) = vardata s" "learnts (detachClause cr False s) = learnts s"
  by (simp_all add: detachClause_def Let_def)

lemma locked_cong:
  "assigns t = assigns s \<Longrightarrow> vardata t = vardata s \<Longrightarrow> lits (ca t ! cr) = lits (ca s ! cr)
   \<Longrightarrow> locked t cr = locked s cr"
  by (simp add: locked_def value_lit_def value_var_def reason_of_def Let_def)

lemma removeClause_unlocked:
  assumes "\<not> locked s cr"
  shows "ca (removeClause cr s) = (ca s)[cr := (ca s ! cr)\<lparr>mark := 1\<rparr>]"
    "assigns (removeClause cr s) = assigns s" "vardata (removeClause cr s) = vardata s"
proof -
  have "locked (detachClause cr False s) cr = locked s cr"
    by (rule locked_cong) simp_all
  then show "ca (removeClause cr s) = (ca s)[cr := (ca s ! cr)\<lparr>mark := 1\<rparr>]"
    "assigns (removeClause cr s) = assigns s" "vardata (removeClause cr s) = vardata s"
    using assms by (simp_all add: removeClause_def Let_def)
qed

lemma marks_only_locked:
  "marks_only s0 s \<Longrightarrow> cr < length (ca s0) \<Longrightarrow> locked s cr = locked s0 cr"
proof (rule locked_cong)
  assume m: "marks_only s0 s" and r: "cr < length (ca s0)"
  show "assigns s = assigns s0" "vardata s = vardata s0" using m by (simp_all add: marks_only_def)
  have "ca s ! cr = (ca s0 ! cr)\<lparr>mark := mark (ca s ! cr)\<rparr>" using m r by (simp add: marks_only_def)
  then have "lits (ca s ! cr) = lits ((ca s0 ! cr)\<lparr>mark := mark (ca s ! cr)\<rparr>)" by simp
  then show "lits (ca s ! cr) = lits (ca s0 ! cr)" by simp
qed

lemma marks_only_fields:
  assumes "marks_only s0 s" "cr < length (ca s0)"
  shows "lits (ca s ! cr) = lits (ca s0 ! cr)" "cl_activity (ca s ! cr) = cl_activity (ca s0 ! cr)"
    "relocation (ca s ! cr) = relocation (ca s0 ! cr)" "learnt (ca s ! cr) = learnt (ca s0 ! cr)"
proof -
  have e: "ca s ! cr = (ca s0 ! cr)\<lparr>mark := mark (ca s ! cr)\<rparr>"
    using assms by (simp add: marks_only_def)
  show "lits (ca s ! cr) = lits (ca s0 ! cr)" by (subst e) simp
  show "cl_activity (ca s ! cr) = cl_activity (ca s0 ! cr)" by (subst e) simp
  show "relocation (ca s ! cr) = relocation (ca s0 ! cr)" by (subst e) simp
  show "learnt (ca s ! cr) = learnt (ca s0 ! cr)" by (subst e) simp
qed

lemma marks_only_removeClause:
  assumes m: "marks_only s0 s" and r: "cr < length (ca s0)" and u: "\<not> locked s cr"
  shows "marks_only s0 (removeClause cr s)"
    "\<forall>x<length (ca s0). mark (ca (removeClause cr s) ! x) = (if x = cr then 1 else mark (ca s ! x))"
proof -
  note rc = removeClause_unlocked [OF u]
  have len: "length (ca s) = length (ca s0)" using m by (simp add: marks_only_def)
  show mk: "\<forall>x<length (ca s0). mark (ca (removeClause cr s) ! x) = (if x = cr then 1 else mark (ca s ! x))"
    using len by (simp add: rc nth_list_update)
  have "ca (removeClause cr s) ! x = (ca s0 ! x)\<lparr>mark := mark (ca (removeClause cr s) ! x)\<rparr>"
    if x: "x < length (ca s0)" for x
  proof -
    have e: "ca s ! x = (ca s0 ! x)\<lparr>mark := mark (ca s ! x)\<rparr>"
      using m x by (simp add: marks_only_def)
    show ?thesis
    proof (cases "x = cr")
      case True
      have "ca (removeClause cr s) ! x = (ca s ! x)\<lparr>mark := 1\<rparr>"
        using True x len by (simp add: rc)
      also have "\<dots> = (ca s0 ! x)\<lparr>mark := 1\<rparr>" by (subst e) simp
      finally show ?thesis using mk x True by simp
    next
      case False
      have "ca (removeClause cr s) ! x = ca s ! x" using False by (simp add: rc)
      then show ?thesis using e mk x False by simp
    qed
  qed
  then show "marks_only s0 (removeClause cr s)"
    using m by (simp add: marks_only_def rc)
qed

lemma reduceDB_loop_spec:
  assumes "marks_only s0 s" and "\<forall>cr\<in>set xs. cr < length (ca s0)"
    and "reduceDB_loop e n i xs kept s = (kept', s')"
  shows "marks_only s0 s' \<and>
         kept' = kept @ map snd (filter (\<lambda>(k, cr). \<not> (length (lits (ca s0 ! cr)) > 2 \<and> \<not> locked s0 cr \<and>
                    (k < n div 2 \<or> cl_activity (ca s0 ! cr) < e))) (enumerate i xs)) \<and>
         (\<forall>x<length (ca s0). mark (ca s' ! x) =
            (if \<exists>k<length xs. xs ! k = x \<and> length (lits (ca s0 ! x)) > 2 \<and> \<not> locked s0 x \<and>
                    (i + k < n div 2 \<or> cl_activity (ca s0 ! x) < e)
             then 1 else mark (ca s ! x)))"
  using assms
proof (induction xs arbitrary: i kept s)
  case Nil
  then show ?case by simp
next
  case (Cons cr crs)
  let ?D = "\<lambda>k x. length (lits (ca s0 ! x)) > 2 \<and> \<not> locked s0 x \<and>
                    (k < n div 2 \<or> cl_activity (ca s0 ! x) < e)"
  have r: "cr < length (ca s0)" and rs: "\<forall>x\<in>set crs. x < length (ca s0)"
    using Cons.prems(2) by simp_all
  have cond: "(length (lits (ca s ! cr)) > 2 \<and> \<not> locked s cr \<and>
         (i < n div 2 \<or> cl_activity (ca s ! cr) < e)) = ?D i cr"
    using marks_only_fields [OF Cons.prems(1) r] marks_only_locked [OF Cons.prems(1) r] by simp
  have ex: "(\<exists>k<length (cr # crs). (cr # crs) ! k = x \<and> ?D (i + k) x)
              = ((cr = x \<and> ?D i x) \<or> (\<exists>k<length crs. crs ! k = x \<and> ?D (Suc i + k) x))" for x
    by (auto simp: less_Suc_eq_0_disj)
  show ?case
  proof (cases "?D i cr")
    case True
    then have u: "\<not> locked s cr" using marks_only_locked [OF Cons.prems(1) r] by simp
    have lp: "reduceDB_loop e n (Suc i) crs kept (removeClause cr s) = (kept', s')"
      using Cons.prems(3) cond True by simp
    note IH = Cons.IH [OF marks_only_removeClause(1) [OF Cons.prems(1) r u] rs lp]
    note mk = marks_only_removeClause(2) [OF Cons.prems(1) r u]
    have "\<forall>x<length (ca s0). mark (ca s' ! x) =
            (if \<exists>k<length (cr # crs). (cr # crs) ! k = x \<and> ?D (i + k) x then 1 else mark (ca s ! x))"
      using IH mk True unfolding ex by auto
    then show ?thesis using IH True by (simp add: enumerate_simps)
  next
    case False
    have lp: "reduceDB_loop e n (Suc i) crs (kept @ [cr]) s = (kept', s')"
      using Cons.prems(3) cond False by auto
    note IH = Cons.IH [OF Cons.prems(1) rs lp]
    have "\<forall>x<length (ca s0). mark (ca s' ! x) =
            (if \<exists>k<length (cr # crs). (cr # crs) ! k = x \<and> ?D (i + k) x then 1 else mark (ca s ! x))"
      using IH False unfolding ex by auto
    then show ?thesis using IH False by (simp add: enumerate_simps)
  qed
qed


lemma insort_lt_set [simp]: "set (insort_lt lt x ys) = insert x (set ys)"
  by (induction ys) auto

lemma insort_lt_length [simp]: "length (insort_lt lt x ys) = Suc (length ys)"
  by (induction ys) auto

lemma insort_lt_distinct: "distinct ys \<Longrightarrow> x \<notin> set ys \<Longrightarrow> distinct (insort_lt lt x ys)"
  by (induction ys) auto

lemma sort_lt_set [simp]: "set (sort_lt lt xs) = set xs"
  by (induction xs) (simp_all add: sort_lt_def)

lemma sort_lt_length [simp]: "length (sort_lt lt xs) = length xs"
  by (induction xs) (simp_all add: sort_lt_def)

lemma sort_lt_distinct: "distinct xs \<Longrightarrow> distinct (sort_lt lt xs)"
proof (induction xs)
  case Nil
  then show ?case by (simp add: sort_lt_def)
next
  case (Cons x xs)
  have "x \<notin> set (sort_lt lt xs)" using Cons.prems by simp
  then show ?case using Cons insort_lt_distinct [of "sort_lt lt xs" x lt] by (simp add: sort_lt_def)
qed

lemma ascending_Cons:
  "ascending lt (x # xs) \<longleftrightarrow> (\<forall>y\<in>set xs. \<not> lt y x) \<and> ascending lt xs"
proof
  assume a: "ascending lt (x # xs)"
  have "\<not> lt y x" if "y \<in> set xs" for y
  proof -
    from that obtain k where "k < length xs" "xs ! k = y" by (auto simp: in_set_conv_nth)
    then show ?thesis using a [unfolded ascending_def, rule_format, of 0 "Suc k"] by simp
  qed
  moreover have "ascending lt xs"
    unfolding ascending_def
  proof (intro allI impI)
    fix i j assume "i < j \<and> j < length xs"
    then show "\<not> lt (xs ! j) (xs ! i)"
      using a [unfolded ascending_def, rule_format, of "Suc i" "Suc j"] by simp
  qed
  ultimately show "(\<forall>y\<in>set xs. \<not> lt y x) \<and> ascending lt xs" by blast
next
  assume a: "(\<forall>y\<in>set xs. \<not> lt y x) \<and> ascending lt xs"
  show "ascending lt (x # xs)"
    unfolding ascending_def
  proof (intro allI impI)
    fix i j assume ij: "i < j \<and> j < length (x # xs)"
    then obtain j' where j': "j = Suc j'" by (cases j) auto
    show "\<not> lt ((x # xs) ! j) ((x # xs) ! i)"
    proof (cases i)
      case 0
      then show ?thesis using a ij j' by simp
    next
      case (Suc i')
      then show ?thesis using a ij j' by (simp add: ascending_def)
    qed
  qed
qed

lemma reduceDB_lt_trans: "reduceDB_lt s x y \<Longrightarrow> reduceDB_lt s y z \<Longrightarrow> reduceDB_lt s x z"
  by (auto simp: reduceDB_lt_def)

lemma reduceDB_lt_asym: "reduceDB_lt s x y \<Longrightarrow> \<not> reduceDB_lt s y x"
  by (auto simp: reduceDB_lt_def)

lemma insort_ascending:
  "ascending (reduceDB_lt s) ys \<Longrightarrow> ascending (reduceDB_lt s) (insort_lt (reduceDB_lt s) x ys)"
proof (induction ys)
  case Nil
  then show ?case by (simp add: ascending_def)
next
  case (Cons y ys)
  show ?case
  proof (cases "reduceDB_lt s x y")
    case True
    have "\<not> reduceDB_lt s z x" if "z \<in> set (y # ys)" for z
    proof (cases "z = y")
      case True
      then show ?thesis using \<open>reduceDB_lt s x y\<close> reduceDB_lt_asym by blast
    next
      case False
      then have "z \<in> set ys" using that by simp
      then have "\<not> reduceDB_lt s z y" using Cons.prems by (simp add: ascending_Cons)
      then show ?thesis using \<open>reduceDB_lt s x y\<close> reduceDB_lt_trans by blast
    qed
    then show ?thesis using True Cons.prems by (simp add: ascending_Cons)
  next
    case False
    then show ?thesis using Cons by (auto simp: ascending_Cons)
  qed
qed

lemma sort_lt_ascending: "ascending (reduceDB_lt s) (sort_lt (reduceDB_lt s) xs)"
proof (induction xs)
  case Nil
  then show ?case by (simp add: sort_lt_def ascending_def)
next
  case (Cons x xs)
  then show ?case using insort_ascending [of s "sort_lt (reduceDB_lt s) xs" x]
    by (simp add: sort_lt_def)
qed

text \<open>What \<^verbatim>\<open>reduceDB\<close> does before it looks at the garbage.\<close>

lemma reduceDB_clauses_spec:
  assumes "\<forall>cr\<in>set (learnts s). cr < length (ca s)"
  shows "learnts (reduceDB_clauses s) = reduceDB_kept s"
    and "marks_only s (reduceDB_clauses s)"
    and "\<forall>x<length (ca s). mark (ca (reduceDB_clauses s) ! x) =
            (if \<exists>k<length (learnts s). sort_lt (reduceDB_lt s) (learnts s) ! k = x \<and> reduceDB_drops s k x
             then 1 else mark (ca s ! x))"
proof -
  let ?e = "cla_inc s / real (length (learnts s))"
  let ?xs = "sort_lt (reduceDB_lt s) (learnts s)"
  let ?s = "s\<lparr>learnts := ?xs\<rparr>"
  obtain kept s1 where lp: "reduceDB_loop ?e (length ?xs) 0 ?xs [] ?s = (kept, s1)"
    by (cases "reduceDB_loop ?e (length ?xs) 0 ?xs [] ?s")
  have m: "marks_only ?s ?s" by (rule marks_only_refl)
  have r: "\<forall>cr\<in>set ?xs. cr < length (ca ?s)" using assms by simp
  note sp = reduceDB_loop_spec [OF m r lp]
  have lk: "locked ?s = locked s"
    by (intro ext locked_cong) simp_all
  have s': "reduceDB_clauses s = s1\<lparr>learnts := kept\<rparr>"
    using lp by (simp add: reduceDB_clauses_def Let_def)
  note sp1 = sp [THEN conjunct1] and sp2 = sp [THEN conjunct2, THEN conjunct1]
    and sp3 = sp [THEN conjunct2, THEN conjunct2]
  have dr: "(length (lits (ca ?s ! cr)) > 2 \<and> \<not> locked ?s cr \<and>
             (k < length ?xs div 2 \<or> cl_activity (ca ?s ! cr) < ?e)) = reduceDB_drops s k cr" for k cr
    by (simp add: reduceDB_drops_def lk)
  show "learnts (reduceDB_clauses s) = reduceDB_kept s"
    using sp2 unfolding dr by (simp add: s' reduceDB_kept_def)
  show "marks_only s (reduceDB_clauses s)"
    using sp1 by (simp add: s' marks_only_def)
  show "\<forall>x<length (ca s). mark (ca (reduceDB_clauses s) ! x) =
            (if \<exists>k<length (learnts s). ?xs ! k = x \<and> reduceDB_drops s k x
             then 1 else mark (ca s ! x))"
  proof -
    have "ca ?s = ca s" "length ?xs = length (learnts s)" "ca (reduceDB_clauses s) = ca s1"
      by (simp_all add: s')
    then show ?thesis using sp3 unfolding dr by (simp only: add_0)
  qed
qed


lemma reloc_inv_init:
  "list_all (\<lambda>c. relocation c = None) old0 \<Longrightarrow> reloc_inv old0 old0 []"
  by (simp add: reloc_inv_def list_all_length)

lemma reloc_step:
  assumes inv: "reloc_inv old0 old to"
    and h0: "list_all (\<lambda>c. relocation c = None) old0"
    and r: "reloc cr (old, to) = (n, old', to')"
  shows "reloc_inv old0 old' to'" "\<exists>ext. to' = to @ ext"
    "cr < length old0 \<Longrightarrow> n < length to' \<and> to' ! n = old0 ! cr"
proof -
  have len: "length old = length old0" using inv by (simp add: reloc_inv_def)
  show "reloc_inv old0 old' to'"
  proof (cases "relocation (old ! cr)")
    case (Some m)
    then show ?thesis using r inv by (simp add: reloc_def)
  next
    case None
    then have o': "old' = old[cr := (old ! cr)\<lparr>relocation := Some (length to)\<rparr>]"
      and t': "to' = to @ [old ! cr]" using r by (auto simp: reloc_def)
    show ?thesis
      unfolding reloc_inv_def
    proof (intro conjI allI impI)
      show "length old' = length old0" using len o' by simp
    next
      fix x assume x: "x < length old0"
      have e: "old ! x = (old0 ! x)\<lparr>relocation := relocation (old ! x)\<rparr>"
        using inv x by (simp add: reloc_inv_def)
      show "old' ! x = (old0 ! x)\<lparr>relocation := relocation (old' ! x)\<rparr>"
      proof (cases "x = cr")
        case True
        have "old' ! x = (old ! x)\<lparr>relocation := Some (length to)\<rparr>"
          using True x len o' by simp
        also have "\<dots> = (old0 ! x)\<lparr>relocation := Some (length to)\<rparr>" by (subst e) simp
        finally show ?thesis by simp
      next
        case False
        then have "old' ! x = old ! x" using o' by simp
        then show ?thesis using e by simp
      qed
    next
      fix x m assume x: "x < length old0" and m: "relocation (old' ! x) = Some m"
      have e: "old ! x = (old0 ! x)\<lparr>relocation := relocation (old ! x)\<rparr>"
        using inv x by (simp add: reloc_inv_def)
      show "m < length to'"
      proof (cases "x = cr")
        case True
        then show ?thesis using m x len o' t' by simp
      next
        case False
        then have "relocation (old ! x) = Some m" using m o' by simp
        then have "m < length to" using inv x unfolding reloc_inv_def by blast
        then show ?thesis using t' by simp
      qed
      show "to' ! m = old0 ! x"
      proof (cases "x = cr")
        case True
        then have mm: "m = length to" using m x len o' by simp
        have "relocation (old0 ! x) = None" using h0 x by (simp add: list_all_length)
        then have "(old0 ! x)\<lparr>relocation := None\<rparr> = old0 ! x" by simp
        then have "old ! x = old0 ! x" using e None True by simp
        then show ?thesis using mm t' True by simp
      next
        case False
        then have "relocation (old ! x) = Some m" using m o' by simp
        then have "m < length to \<and> to ! m = old0 ! x" using inv x unfolding reloc_inv_def by blast
        then show ?thesis using t' by (simp add: nth_append)
      qed
    qed
  qed
  show "\<exists>ext. to' = to @ ext" using r by (auto simp: reloc_def split: option.splits)
  show "n < length to' \<and> to' ! n = old0 ! cr" if x: "cr < length old0"
  proof (cases "relocation (old ! cr)")
    case (Some m)
    then have "n = m" "to' = to" using r by (auto simp: reloc_def)
    then show ?thesis using inv x Some unfolding reloc_inv_def by blast
  next
    case None
    then have n: "n = length to" and t': "to' = to @ [old ! cr]" using r by (auto simp: reloc_def)
    have e: "old ! cr = (old0 ! cr)\<lparr>relocation := relocation (old ! cr)\<rparr>"
      using inv x by (simp add: reloc_inv_def)
    have "relocation (old0 ! cr) = None" using h0 x by (simp add: list_all_length)
    then have "(old0 ! cr)\<lparr>relocation := None\<rparr> = old0 ! cr" by simp
    then have "old ! cr = old0 ! cr" using e None by simp
    then show ?thesis using n t' by simp
  qed
qed

lemma reloc_list_spec:
  assumes "reloc_inv old0 old to" and "list_all (\<lambda>c. relocation c = None) old0"
    and "\<forall>cr\<in>set crs. cr < length old0"
    and "reloc_list crs (old, to) = (ns, old', to')"
  shows "reloc_inv old0 old' to' \<and> (\<exists>ext. to' = to @ ext) \<and>
         length ns = length crs \<and> (\<forall>n\<in>set ns. n < length to') \<and>
         map (nth to') ns = map (nth old0) crs"
  using assms
proof (induction crs arbitrary: old to ns old' to')
  case Nil
  then show ?case by simp
next
  case (Cons cr crs)
  obtain n old1 to1 where r: "reloc cr (old, to) = (n, old1, to1)" by (cases "reloc cr (old, to)")
  obtain ns' old2 to2 where rl: "reloc_list crs (old1, to1) = (ns', old2, to2)"
    by (cases "reloc_list crs (old1, to1)")
  have res: "ns = n # ns'" "old' = old2" "to' = to2" using Cons.prems(4) r rl by simp_all
  note st = reloc_step [OF Cons.prems(1,2) r]
  have cr: "cr < length old0" and crs: "\<forall>x\<in>set crs. x < length old0" using Cons.prems(3) by simp_all
  note IH = Cons.IH [OF st(1) Cons.prems(2) crs rl]
  from IH obtain ext where ext: "to2 = to1 @ ext" by blast
  from st(2) obtain ext1 where ext1: "to1 = to @ ext1" by blast
  have n: "n < length to1" "to1 ! n = old0 ! cr" using st(3) [OF cr] by simp_all
  have "to2 ! n = old0 ! cr" using n ext by (simp add: nth_append)
  moreover have "n < length to2" using n ext by simp
  moreover have "to2 = to @ (ext1 @ ext)" using ext ext1 by simp
  ultimately show ?case using IH res by auto
qed

lemma reloc_list_prefix_aux:
  "reloc_list crs (old, to) = (ns, old', to') \<Longrightarrow> \<exists>ext. to' = to @ ext"
proof (induction crs arbitrary: old to ns old' to')
  case Nil
  then show ?case by simp
next
  case (Cons cr crs)
  obtain n old1 to1 where r: "reloc cr (old, to) = (n, old1, to1)" by (cases "reloc cr (old, to)")
  obtain ns' old2 to2 where rl: "reloc_list crs (old1, to1) = (ns', old2, to2)"
    by (cases "reloc_list crs (old1, to1)")
  have res: "to' = to2" using Cons.prems r rl by simp
  from r obtain e1 where "to1 = to @ e1" by (auto simp: reloc_def split: option.splits)
  moreover from Cons.IH [OF rl] obtain e2 where "to2 = to1 @ e2" by blast
  ultimately show ?case using res by simp
qed

lemma reloc_watchers_inv:
  assumes "reloc_inv old0 old to" and "list_all (\<lambda>c. relocation c = None) old0"
    and "reloc_watchers ws (old, to) = (ws', old', to')"
  shows "reloc_inv old0 old' to'"
  using assms
proof (induction ws arbitrary: old to ws' old' to')
  case Nil
  then show ?case by simp
next
  case (Cons w ws)
  obtain n old1 to1 where r: "reloc (cref w) (old, to) = (n, old1, to1)"
    by (cases "reloc (cref w) (old, to)")
  obtain ws2 old2 to2 where rl: "reloc_watchers ws (old1, to1) = (ws2, old2, to2)"
    by (cases "reloc_watchers ws (old1, to1)")
  have res: "old' = old2" "to' = to2" using Cons.prems(3) r rl by simp_all
  show ?case using Cons.IH [OF reloc_step(1) [OF Cons.prems(1,2) r] Cons.prems(2) rl] res by simp
qed

lemma for_each_invariant:
  "(\<And>x st. P st \<Longrightarrow> P (f x st)) \<Longrightarrow> P st \<Longrightarrow> P (for_each f xs st)"
  by (induction xs arbitrary: st) auto

lemma reloc_watches_inv:
  assumes "list_all (\<lambda>c. relocation c = None) old0" and "gc_inv old0 ls cs st"
  shows "gc_inv old0 ls cs (reloc_watches p st)"
proof -
  obtain s to where st: "st = (s, to)" by (cases st)
  obtain ws old' to' where r: "reloc_watchers (watch_list s p) (ca s, to) = (ws, old', to')"
    by (cases "reloc_watchers (watch_list s p) (ca s, to)")
  have "reloc_inv old0 old' to'"
    using reloc_watchers_inv [OF _ assms(1) r] assms(2) st by (simp add: gc_inv_def)
  then show ?thesis using assms(2) st r
    by (simp add: gc_inv_def reloc_watches_def set_watch_list_def)
qed

lemma reloc_reason_inv:
  assumes "list_all (\<lambda>c. relocation c = None) old0" and "gc_inv old0 ls cs st"
  shows "gc_inv old0 ls cs (reloc_reason p st)"
proof -
  obtain s to where st: "st = (s, to)" by (cases st)
  show ?thesis
  proof (cases "reason_of s (var p)")
    case None
    then show ?thesis using assms(2) st by (simp add: reloc_reason_def Let_def)
  next
    case (Some r)
    obtain n old' to' where rl: "reloc r (ca s, to) = (n, old', to')" by (cases "reloc r (ca s, to)")
    have "reloc_inv old0 old' to'"
      using reloc_step(1) [OF _ assms(1) rl] assms(2) st by (simp add: gc_inv_def)
    then show ?thesis using assms(2) st Some rl
      by (simp add: gc_inv_def reloc_reason_def Let_def)
  qed
qed

lemma cleanAll_frame: "ca (cleanAll s) = ca s" "learnts (cleanAll s) = learnts s"
  "clauses (cleanAll s) = clauses s"
  unfolding cleanAll_def
  by (rule for_each_preserves; simp add: clean_def set_watch_list_def)+

lemma garbageCollect_learnts:
  assumes h0: "list_all (\<lambda>c. relocation c = None) (ca s)"
    and rng: "\<forall>cr\<in>set (learnts s). cr < length (ca s)"
  shows "map (nth (ca (garbageCollect s))) (learnts (garbageCollect s))
           = map (nth (ca s)) (filter (\<lambda>cr. mark (ca s ! cr) \<noteq> 1) (learnts s))"
proof -
  let ?old0 = "ca s"
  let ?L = "learnts s"
  let ?C = "clauses s"
  let ?s1 = "cleanAll s"
  obtain s2 to2 where w: "for_each reloc_watches (all_lits (nVars ?s1)) (?s1, []) = (s2, to2)"
    by (cases "for_each reloc_watches (all_lits (nVars ?s1)) (?s1, [])")
  obtain s3 to3 where rr: "for_each reloc_reason (trail s2) (s2, to2) = (s3, to3)"
    by (cases "for_each reloc_reason (trail s2) (s2, to2)")
  let ?fl = "filter (\<lambda>cr. \<not> isRemoved s3 cr) (learnts s3)"
  obtain ls old4 to4 where l: "reloc_list ?fl (ca s3, to3) = (ls, old4, to4)"
    by (cases "reloc_list ?fl (ca s3, to3)")
  let ?s4 = "s3\<lparr>learnts := ls, ca := old4\<rparr>"
  let ?fc = "filter (\<lambda>cr. \<not> isRemoved ?s4 cr) (clauses ?s4)"
  obtain cs old5 to5 where c: "reloc_list ?fc (ca ?s4, to4) = (cs, old5, to5)"
    by (cases "reloc_list ?fc (ca ?s4, to4)")
  have g1: "gc_inv ?old0 ?L ?C (?s1, [])"
    using reloc_inv_init [OF h0] by (simp add: gc_inv_def cleanAll_frame)
  have "gc_inv ?old0 ?L ?C (for_each reloc_watches (all_lits (nVars ?s1)) (?s1, []))"
    by (rule for_each_invariant) (rule reloc_watches_inv [OF h0], assumption, rule g1)
  then have g2: "gc_inv ?old0 ?L ?C (s2, to2)" unfolding w .
  have "gc_inv ?old0 ?L ?C (for_each reloc_reason (trail s2) (s2, to2))"
    by (rule for_each_invariant) (rule reloc_reason_inv [OF h0], assumption, rule g2)
  then have g3: "gc_inv ?old0 ?L ?C (s3, to3)" unfolding rr .
  have i3: "reloc_inv ?old0 (ca s3) to3" and l3: "learnts s3 = ?L"
    using g3 by (simp_all add: gc_inv_def)
  have mk: "mark (ca s3 ! cr) = mark (ca s ! cr)" if "cr < length (ca s)" for cr
  proof -
    have "ca s3 ! cr = (ca s ! cr)\<lparr>relocation := relocation (ca s3 ! cr)\<rparr>"
      using i3 that by (simp add: reloc_inv_def)
    then have "mark (ca s3 ! cr) = mark ((ca s ! cr)\<lparr>relocation := relocation (ca s3 ! cr)\<rparr>)"
      by simp
    then show ?thesis by simp
  qed
  have fl: "?fl = filter (\<lambda>cr. mark (ca s ! cr) \<noteq> 1) ?L"
    unfolding l3 using rng mk by (intro filter_cong) (simp_all add: isRemoved_def)
  have rfl: "\<forall>cr\<in>set ?fl. cr < length ?old0" using rng l3 by simp
  note sl = reloc_list_spec [OF i3 h0 rfl l]
  have ml: "map (nth to4) ls = map (nth ?old0) ?fl" and bl: "\<forall>n\<in>set ls. n < length to4"
    using sl by blast+
  obtain ext where ext: "to5 = to4 @ ext"
    using reloc_list_prefix_aux [OF c] by blast
  have "map (nth to5) ls = map (nth to4) ls"
    using bl ext by (simp add: nth_append)
  moreover have "garbageCollect s = (?s4\<lparr>clauses := cs, ca := old5\<rparr>)\<lparr>ca := to5\<rparr>"
    using w rr l c by (simp add: garbageCollect_def relocAll_def Let_def)
  ultimately show ?thesis using ml fl by simp
qed


lemma reduceDB_kept_unchanged:
  assumes wf: "learnts_wf s" and k: "cr \<in> set (reduceDB_kept s)"
  shows "cr \<in> set (learnts s)" "cr < length (ca s)" "ca (reduceDB_clauses s) ! cr = ca s ! cr"
    "mark (ca s ! cr) \<noteq> 1"
proof -
  let ?xs = "sort_lt (reduceDB_lt s) (learnts s)"
  have rng: "\<forall>cr\<in>set (learnts s). cr < length (ca s)"
    and mk0: "\<forall>cr\<in>set (learnts s). mark (ca s ! cr) \<noteq> 1"
    and d: "distinct ?xs"
    using wf by (auto simp: learnts_wf_def list_all_iff sort_lt_distinct)
  from k obtain i where i: "(i, cr) \<in> set (enumerate 0 ?xs)" "\<not> reduceDB_drops s i cr"
    by (auto simp: reduceDB_kept_def)
  then have il: "i < length ?xs" "?xs ! i = cr" by (auto simp: in_set_enumerate_eq)
  have "?xs ! i \<in> set ?xs" using il(1) by (rule nth_mem)
  then show m: "cr \<in> set (learnts s)" using il(2) by simp
  then show r: "cr < length (ca s)" using rng by blast
  show "mark (ca s ! cr) \<noteq> 1" using mk0 m by blast
  have nc: "\<not> (\<exists>k<length (learnts s). ?xs ! k = cr \<and> reduceDB_drops s k cr)"
  proof
    assume "\<exists>k<length (learnts s). ?xs ! k = cr \<and> reduceDB_drops s k cr"
    then obtain k where kk: "k < length ?xs" "?xs ! k = cr" "reduceDB_drops s k cr" by auto
    then have "k = i" using nth_eq_iff_index_eq [OF d, of k i] il by simp
    then show False using kk i by simp
  qed
  have eq: "mark (ca (reduceDB_clauses s) ! cr) =
            (if \<exists>k<length (learnts s). ?xs ! k = cr \<and> reduceDB_drops s k cr
             then 1 else mark (ca s ! cr))"
    using reduceDB_clauses_spec(3) [OF rng] r by blast
  have "mark (ca (reduceDB_clauses s) ! cr) = mark (ca s ! cr)"
    using eq unfolding if_not_P [OF nc] .
  moreover have "ca (reduceDB_clauses s) ! cr
                   = (ca s ! cr)\<lparr>mark := mark (ca (reduceDB_clauses s) ! cr)\<rparr>"
    using reduceDB_clauses_spec(2) [OF rng] r unfolding marks_only_def by blast
  ultimately show "ca (reduceDB_clauses s) ! cr = ca s ! cr" by simp
qed

lemma reduceDB_contents:
  assumes wf: "learnts_wf s"
  shows "map (nth (ca (reduceDB E s))) (learnts (reduceDB E s)) = map (nth (ca s)) (reduceDB_kept s)"
proof -
  let ?s1 = "reduceDB_clauses s"
  have rng: "\<forall>cr\<in>set (learnts s). cr < length (ca s)"
    using wf by (auto simp: learnts_wf_def list_all_iff)
  have l1: "learnts ?s1 = reduceDB_kept s" using reduceDB_clauses_spec(1) [OF rng] .
  note m1 = reduceDB_clauses_spec(2) [OF rng]
  have core: "map (nth (ca ?s1)) (reduceDB_kept s) = map (nth (ca s)) (reduceDB_kept s)"
    using reduceDB_kept_unchanged(3) [OF wf] by simp
  show ?thesis
  proof (cases "need_gc E (garbage_frac (opt ?s1)) (ca ?s1)")
    case False
    then have "reduceDB E s = ?s1" by (simp add: reduceDB_eq checkGarbage_def)
    then show ?thesis using l1 core by simp
  next
    case True
    then have e: "reduceDB E s = garbageCollect ?s1" by (simp add: reduceDB_eq checkGarbage_def)
    have len: "length (ca ?s1) = length (ca s)" using m1 by (simp add: marks_only_def)
    have h0: "list_all (\<lambda>c. relocation c = None) (ca ?s1)"
      unfolding list_all_length
    proof (intro allI impI)
      fix n assume "n < length (ca ?s1)"
      then have n: "n < length (ca s)" using len by simp
      then have "relocation (ca s ! n) = None" using wf by (simp add: learnts_wf_def list_all_length)
      then show "relocation (ca ?s1 ! n) = None" using marks_only_fields(3) [OF m1 n] by simp
    qed
    have r1: "\<forall>cr\<in>set (learnts ?s1). cr < length (ca ?s1)"
      using reduceDB_kept_unchanged(2) [OF wf] l1 len by simp
    have "filter (\<lambda>cr. mark (ca ?s1 ! cr) \<noteq> 1) (reduceDB_kept s) = reduceDB_kept s"
      using reduceDB_kept_unchanged(3,4) [OF wf] by (simp add: filter_id_conv)
    then show ?thesis
      using garbageCollect_learnts [OF h0 r1] core unfolding e l1 by simp
  qed
qed

lemma reduceDB_binary_or_locked_kept:
  assumes wf: "learnts_wf s" and m: "cr \<in> set (learnts s)"
    and b: "length (lits (ca s ! cr)) \<le> 2 \<or> locked s cr"
  shows "\<exists>cr'\<in>set (learnts (reduceDB E s)). ca (reduceDB E s) ! cr' = ca s ! cr"
proof -
  let ?xs = "sort_lt (reduceDB_lt s) (learnts s)"
  from m have "cr \<in> set ?xs" by simp
  then obtain i where i: "i < length ?xs" "?xs ! i = cr" unfolding in_set_conv_nth by blast
  have "\<not> reduceDB_drops s i cr" using b by (auto simp: reduceDB_drops_def)
  moreover have "(i, cr) \<in> set (enumerate 0 ?xs)" using i by (simp add: in_set_enumerate_eq)
  ultimately have "cr \<in> set (reduceDB_kept s)" by (force simp: reduceDB_kept_def)
  then have "ca s ! cr \<in> set (map (nth (ca s)) (reduceDB_kept s))" by simp
  then have "ca s ! cr \<in> set (map (nth (ca (reduceDB E s))) (learnts (reduceDB E s)))"
    using reduceDB_contents [OF wf, of E] by simp
  then show ?thesis by auto
qed

lemma reduceDB_lower_half_dropped:
  assumes wf: "learnts_wf s" and i: "i < length (learnts s) div 2"
    and cr: "cr = sort_lt (reduceDB_lt s) (learnts s) ! i"
    and l: "length (lits (ca s ! cr)) > 2" and u: "\<not> locked s cr"
  shows "cr \<notin> set (reduceDB_kept s)" "mark (ca (reduceDB_clauses s) ! cr) = 1"
proof -
  let ?xs = "sort_lt (reduceDB_lt s) (learnts s)"
  have rng: "\<forall>cr\<in>set (learnts s). cr < length (ca s)" and d: "distinct ?xs"
    using wf by (auto simp: learnts_wf_def list_all_iff sort_lt_distinct)
  have il: "i < length ?xs" using i by simp
  have "?xs ! i \<in> set ?xs" using il by (rule nth_mem)
  then have r: "cr < length (ca s)" using rng cr by simp
  have dr: "reduceDB_drops s i cr" using i l u by (simp add: reduceDB_drops_def)
  show "cr \<notin> set (reduceDB_kept s)"
  proof
    assume "cr \<in> set (reduceDB_kept s)"
    then obtain k where k: "(k, cr) \<in> set (enumerate 0 ?xs)" "\<not> reduceDB_drops s k cr"
      by (auto simp: reduceDB_kept_def)
    then have "k < length ?xs" "?xs ! k = cr" by (auto simp: in_set_enumerate_eq)
    then have "k = i" using nth_eq_iff_index_eq [OF d, of k i] il cr by simp
    then show False using k dr by simp
  qed
  have ex: "\<exists>k<length (learnts s). ?xs ! k = cr \<and> reduceDB_drops s k cr"
    using il cr dr by auto
  have eq: "mark (ca (reduceDB_clauses s) ! cr) =
            (if \<exists>k<length (learnts s). ?xs ! k = cr \<and> reduceDB_drops s k cr
             then 1 else mark (ca s ! cr))"
    using reduceDB_clauses_spec(3) [OF rng] r by blast
  show "mark (ca (reduceDB_clauses s) ! cr) = 1"
    using eq unfolding if_P [OF ex] .
qed

lemma reduceDB_dropped_only:
  assumes wf: "learnts_wf s" and r: "cr < length (ca s)"
    and m1: "mark (ca (reduceDB_clauses s) ! cr) = 1" and m0: "mark (ca s ! cr) \<noteq> 1"
  shows "cr \<in> set (learnts s) \<and> length (lits (ca s ! cr)) > 2 \<and> \<not> locked s cr"
proof -
  let ?xs = "sort_lt (reduceDB_lt s) (learnts s)"
  have rng: "\<forall>cr\<in>set (learnts s). cr < length (ca s)"
    using wf by (auto simp: learnts_wf_def list_all_iff)
  have eq: "mark (ca (reduceDB_clauses s) ! cr) =
            (if \<exists>k<length (learnts s). ?xs ! k = cr \<and> reduceDB_drops s k cr
             then 1 else mark (ca s ! cr))"
    using reduceDB_clauses_spec(3) [OF rng] r by blast
  have "\<exists>k<length (learnts s). ?xs ! k = cr \<and> reduceDB_drops s k cr"
  proof (rule ccontr)
    assume nc: "\<not> (\<exists>k<length (learnts s). ?xs ! k = cr \<and> reduceDB_drops s k cr)"
    have "mark (ca (reduceDB_clauses s) ! cr) = mark (ca s ! cr)"
      using eq unfolding if_not_P [OF nc] .
    then show False using m1 m0 by simp
  qed
  then obtain k where k: "k < length ?xs" "?xs ! k = cr" "reduceDB_drops s k cr" by auto
  have "?xs ! k \<in> set ?xs" using k(1) by (rule nth_mem)
  then have "cr \<in> set (learnts s)" using k(2) by simp
  then show ?thesis using k(3) by (simp add: reduceDB_drops_def)
qed

text \<open>C9.  On a well-formed list of learned clauses: every learned clause that is binary
  (at most two literals) or locked is, unchanged, among the learned clauses after
  \<^verbatim>\<open>reduceDB\<close>, whether or not the garbage collector runs and moves the clauses; the
  learned clauses after the call are exactly those of the sorted list that are not
  dropped, as they were and in that order; a clause in the lower half of the sorted list
  that is neither binary nor locked is removed (marked and taken off the list); whatever
  is removed is a learned clause that is neither binary nor locked; and the sort permutes
  the list so that no clause comes after one that \<^verbatim>\<open>reduceDB_lt\<close> ranks above it: the
  binary clauses last, the others by ascending activity.\<close>

theorem reduceDB_keeps_binary_and_locked:
  "(\<forall>E s cr. learnts_wf s \<and> cr \<in> set (learnts s) \<and>
       (length (lits (ca s ! cr)) \<le> 2 \<or> locked s cr)
       \<longrightarrow> (\<exists>cr'\<in>set (learnts (reduceDB E s)). ca (reduceDB E s) ! cr' = ca s ! cr)) \<and>
   (\<forall>E s. learnts_wf s
       \<longrightarrow> map (nth (ca (reduceDB E s))) (learnts (reduceDB E s)) = map (nth (ca s)) (reduceDB_kept s)) \<and>
   (\<forall>E s. reduceDB E s = checkGarbage E (reduceDB_clauses s)) \<and>
   (\<forall>s i cr. learnts_wf s \<and> i < length (learnts s) div 2 \<and>
       cr = sort_lt (reduceDB_lt s) (learnts s) ! i \<and>
       length (lits (ca s ! cr)) > 2 \<and> \<not> locked s cr
       \<longrightarrow> cr \<notin> set (learnts (reduceDB_clauses s)) \<and> mark (ca (reduceDB_clauses s) ! cr) = 1) \<and>
   (\<forall>s cr. learnts_wf s \<and> cr < length (ca s) \<and>
       mark (ca (reduceDB_clauses s) ! cr) = 1 \<and> mark (ca s ! cr) \<noteq> 1
       \<longrightarrow> cr \<in> set (learnts s) \<and> length (lits (ca s ! cr)) > 2 \<and> \<not> locked s cr) \<and>
   (\<forall>s. set (sort_lt (reduceDB_lt s) (learnts s)) = set (learnts s) \<and>
        length (sort_lt (reduceDB_lt s) (learnts s)) = length (learnts s) \<and>
        ascending (reduceDB_lt s) (sort_lt (reduceDB_lt s) (learnts s)))"
proof (intro conjI allI impI)
  fix E :: env and s :: solver and cr
  assume "learnts_wf s \<and> cr \<in> set (learnts s) \<and>
       (length (lits (ca s ! cr)) \<le> 2 \<or> locked s cr)"
  then show "\<exists>cr'\<in>set (learnts (reduceDB E s)). ca (reduceDB E s) ! cr' = ca s ! cr"
    using reduceDB_binary_or_locked_kept [of s cr E] by blast
next
  fix E :: env and s :: solver
  assume "learnts_wf s"
  then show "map (nth (ca (reduceDB E s))) (learnts (reduceDB E s)) = map (nth (ca s)) (reduceDB_kept s)"
    by (rule reduceDB_contents)
next
  fix E :: env and s :: solver
  show "reduceDB E s = checkGarbage E (reduceDB_clauses s)" by (rule reduceDB_eq)
next
  fix s :: solver and i cr
  assume a: "learnts_wf s \<and> i < length (learnts s) div 2 \<and>
       cr = sort_lt (reduceDB_lt s) (learnts s) ! i \<and>
       length (lits (ca s ! cr)) > 2 \<and> \<not> locked s cr"
  then have rng: "\<forall>cr\<in>set (learnts s). cr < length (ca s)"
    by (auto simp: learnts_wf_def list_all_iff)
  from a have a1: "learnts_wf s" and a2: "i < length (learnts s) div 2"
    and a3: "cr = sort_lt (reduceDB_lt s) (learnts s) ! i"
    and a4: "length (lits (ca s ! cr)) > 2" and a5: "\<not> locked s cr" by blast+
  show "cr \<notin> set (learnts (reduceDB_clauses s))"
    unfolding reduceDB_clauses_spec(1) [OF rng]
    by (rule reduceDB_lower_half_dropped(1) [OF a1 a2 a3 a4 a5])
  show "mark (ca (reduceDB_clauses s) ! cr) = 1"
    by (rule reduceDB_lower_half_dropped(2) [OF a1 a2 a3 a4 a5])
next
  fix s :: solver and cr
  assume a: "learnts_wf s \<and> cr < length (ca s) \<and>
       mark (ca (reduceDB_clauses s) ! cr) = 1 \<and> mark (ca s ! cr) \<noteq> 1"
  then have r: "cr \<in> set (learnts s) \<and> length (lits (ca s ! cr)) > 2 \<and> \<not> locked s cr"
    using reduceDB_dropped_only [of s cr] by blast
  show "cr \<in> set (learnts s)" using r by simp
  show "length (lits (ca s ! cr)) > 2" using r by simp
  show "\<not> locked s cr" using r by simp
next
  fix s :: solver
  show "set (sort_lt (reduceDB_lt s) (learnts s)) = set (learnts s)" by simp
  show "length (sort_lt (reduceDB_lt s) (learnts s)) = length (learnts s)" by simp
  show "ascending (reduceDB_lt s) (sort_lt (reduceDB_lt s) (learnts s))" by (rule sort_lt_ascending)
qed

theorem reduceDB_keeps_binary_and_locked_witness:
  "learnts_wf learnt_db \<and>
   sort_lt (reduceDB_lt learnt_db) (learnts learnt_db) = [0, 2, 3, 1] \<and>
   map (\<lambda>cr. length (lits (ca learnt_db ! cr))) [0, 2, 3, 1] = [3, 3, 3, 2] \<and>
   map (locked learnt_db) [0, 2, 3, 1] = [False, True, False, False] \<and>
   learnts (reduceDB env0 learnt_db) = [2, 3, 1] \<and>
   map (nth (ca (reduceDB env_gc learnt_db))) (learnts (reduceDB env_gc learnt_db))
     = map (nth (ca learnt_db)) [2, 3, 1] \<and>
   map (\<lambda>cr. lits (ca (reduceDB env_gc learnt_db) ! cr)) (learnts (reduceDB env_gc learnt_db))
     = [[mkLit 3 False, mkLit 4 True, mkLit 5 True], [mkLit 1 False, mkLit 2 False, mkLit 3 False],
        [mkLit 0 False, mkLit 1 False]] \<and>
   mark (ca (reduceDB_clauses learnt_db) ! 0) = 1 \<and>
   0 \<notin> set (learnts (reduceDB_clauses learnt_db))"
proof -
  have h: "learnts_wf learnt_db \<and>
      sort_lt (reduceDB_lt learnt_db) (learnts learnt_db) = [0, 2, 3, 1] \<and>
      map (\<lambda>cr. length (lits (ca learnt_db ! cr))) [0, 2, 3, 1] = [3, 3, 3, 2] \<and>
      map (locked learnt_db) [0, 2, 3, 1] = [False, True, False, False] \<and>
      learnts (reduceDB env0 learnt_db) = [2, 3, 1] \<and>
      reduceDB_kept learnt_db = [2, 3, 1] \<and> length (learnts learnt_db) = 4 \<and>
      map (\<lambda>cr. lits (ca learnt_db ! cr)) [2, 3, 1]
        = [[mkLit 3 False, mkLit 4 True, mkLit 5 True], [mkLit 1 False, mkLit 2 False, mkLit 3 False],
           [mkLit 0 False, mkLit 1 False]]"
    by code_simp
  note c2 = reduceDB_keeps_binary_and_locked [THEN conjunct2, THEN conjunct1, rule_format]
  note c4 = reduceDB_keeps_binary_and_locked [THEN conjunct2, THEN conjunct2, THEN conjunct2,
      THEN conjunct1, rule_format]
  have wf: "learnts_wf learnt_db" using h by blast
  have k: "reduceDB_kept learnt_db = [2, 3, 1]" using h by blast
  have g: "map (nth (ca (reduceDB env_gc learnt_db))) (learnts (reduceDB env_gc learnt_db))
             = map (nth (ca learnt_db)) [2, 3, 1]"
    using c2 [OF wf, of env_gc] unfolding k .
  have "map lits (map (nth (ca (reduceDB env_gc learnt_db))) (learnts (reduceDB env_gc learnt_db)))
             = map lits (map (nth (ca learnt_db)) [2, 3, 1])"
    using g by (rule arg_cong)
  then have gl: "map (\<lambda>cr. lits (ca (reduceDB env_gc learnt_db) ! cr)) (learnts (reduceDB env_gc learnt_db))
     = [[mkLit 3 False, mkLit 4 True, mkLit 5 True], [mkLit 1 False, mkLit 2 False, mkLit 3 False],
        [mkLit 0 False, mkLit 1 False]]"
    using h by (simp add: comp_def)
  have d: "0 \<notin> set (learnts (reduceDB_clauses learnt_db)) \<and>
           mark (ca (reduceDB_clauses learnt_db) ! 0) = 1"
  proof (rule c4 [of learnt_db 0 0])
    show "learnts_wf learnt_db \<and> 0 < length (learnts learnt_db) div 2 \<and>
          0 = sort_lt (reduceDB_lt learnt_db) (learnts learnt_db) ! 0 \<and>
          2 < length (lits (ca learnt_db ! 0)) \<and> \<not> locked learnt_db 0"
      using h by simp
  qed
  show ?thesis using h g gl d by blast
qed

section \<open>The learned clause and the backtrack level\<close>


lemma analyze_frame_refl [simp]: "analyze_frame s s"
  by (simp add: analyze_frame_def)









lemma lits_set_cl_activity [simp]: "lits (ca (set_cl_activity cr a s) ! x) = lits (ca s ! x)"
proof (cases "x = cr \<and> cr < length (ca s)")
  case True
  then show ?thesis by (simp add: set_cl_activity_def)
next
  case False
  then show ?thesis
    by (cases "cr < length (ca s)") (auto simp: set_cl_activity_def list_update_beyond)
qed

lemma lits_claBumpActivity [simp]: "lits (ca (claBumpActivity cr s) ! x) = lits (ca s ! x)"
proof -
  have "lits (ca (for_each (\<lambda>l t. set_cl_activity l (f t l) t) ls s) ! x) = lits (ca s ! x)"
    for f :: "solver \<Rightarrow> cref \<Rightarrow> real" and ls s
    by (induction ls arbitrary: s) simp_all
  from this [of "\<lambda>t l. cl_activity (ca t ! l) * (1 / 10 ^ 20)"]
  show ?thesis by (simp add: claBumpActivity_def Let_def)
qed










lemma clear_seen_vardata: "vardata (clear_seen ls s) = vardata s"
  unfolding clear_seen_def by (rule for_each_preserves) simp




lemma var_neg [simp]: "var (neg l) = var l"
  by (cases l) (simp add: neg_def)





end
